theory Spec2Isabelle
  imports Complex_Main
begin

section \<open>Data model\<close>

text \<open>
  Skelbumentations threads a dictionary of numpy arrays through every call:
  \<^verbatim>\<open>keypoints\<close> with axes (T, V, C), and the boolean masks \<^verbatim>\<open>invalid\<close> and
  \<^verbatim>\<open>peturbation\<close> (the key is spelled so in \<^verbatim>\<open>compose.py\<close>) with axes (T, V).
  An array is a list of frames, a frame a list of joints, a joint a list of
  coordinates. Floating point numbers are idealised as reals.

  The dictionary is passed as keyword arguments (\<^verbatim>\<open>t(**data)\<close>), so a keyword
  \<^verbatim>\<open>force_apply\<close> travels in the same dictionary: a callee whose signature names
  \<^verbatim>\<open>force_apply\<close> takes it out, a callee declared \<^verbatim>\<open>__call__(self, **data)\<close>
  keeps it as one more entry of \<^verbatim>\<open>data\<close>. The field \<open>force_apply\<close> below is that
  entry: \<open>None\<close> when the keyword is absent.
\<close>

datatype error =
  KeyError | AssertionError | IndexError | ValueError | ZeroDivisionError | TypeError | Diverges

record data =
  keypoints :: "real list list list"
  invalid :: "bool list list"
  peturbation :: "bool list list"
  force_apply :: "bool option"

text \<open>The shape of an array, frame by frame: for a rectangular array it fixes T, V and C.\<close>

definition kp_shape :: "real list list list \<Rightarrow> nat list list" where
  "kp_shape k = map (map length) k"

definition mask_shape :: "bool list list \<Rightarrow> nat list" where
  "mask_shape m = map length m"

text \<open>\<^verbatim>\<open>invalid.shape == keypoints.shape[:-1]\<close>, the assertion of \<^verbatim>\<open>check_args\<close>.\<close>

definition shape_matches :: "bool list list \<Rightarrow> real list list list \<Rightarrow> bool" where
  "shape_matches m k = (mask_shape m = map length k)"

text \<open>\<^verbatim>\<open>keypoints.shape[1]\<close>; a list of no frames carries no joint count, it reads as 0.\<close>

definition num_joints :: "'a list list \<Rightarrow> nat" where
  "num_joints a = (case a of [] \<Rightarrow> 0 | f # _ \<Rightarrow> length f)"

definition num_coords :: "real list list list \<Rightarrow> nat" where
  "num_coords k = (case k of (j # _) # _ \<Rightarrow> length j | _ \<Rightarrow> 0)"

subsection \<open>Python and numpy indexing\<close>

text \<open>An index into a sequence of length \<open>n\<close>: negative indices count from the end.\<close>

definition py_index :: "nat \<Rightarrow> int \<Rightarrow> nat option" where
  "py_index n i =
     (if 0 \<le> i \<and> i < int n then Some (nat i)
      else if - int n \<le> i \<and> i < 0 then Some (nat (int n + i))
      else None)"

definition index_ok :: "nat \<Rightarrow> int \<Rightarrow> bool" where
  "index_ok n i = (py_index n i \<noteq> None)"

definition ix :: "nat \<Rightarrow> int \<Rightarrow> nat" where
  "ix n i = (case py_index n i of Some j \<Rightarrow> j | None \<Rightarrow> 0)"

text \<open>\<^verbatim>\<open>xs[i:j]\<close> for a list.\<close>

definition py_slice :: "'a list \<Rightarrow> int \<Rightarrow> int \<Rightarrow> 'a list" where
  "py_slice xs i j =
     (let n = int (length xs);
          a = (if i < 0 then max (i + n) 0 else min i n);
          b = (if j < 0 then max (j + n) 0 else min j n)
      in take (nat (b - a)) (drop (nat a) xs))"

text \<open>\<^verbatim>\<open>xs[i:]\<close> for a list.\<close>

definition py_slice_from :: "'a list \<Rightarrow> int \<Rightarrow> 'a list" where
  "py_slice_from xs i =
     (let n = int (length xs) in drop (nat (if i < 0 then max (i + n) 0 else min i n)) xs)"

text \<open>
  \<^verbatim>\<open>d[select_ids]\<close> along the first axis: integer-array indexing, which copies.
\<close>

definition take_rows :: "'a list \<Rightarrow> int list \<Rightarrow> error + 'a list" where
  "take_rows xs ids =
     (if list_all (index_ok (length xs)) ids
      then Inr (map (\<lambda>i. xs ! ix (length xs) i) ids)
      else Inl IndexError)"

text \<open>
  \<^verbatim>\<open>d[select_ids] = vs\<close>: the rows are written in the order of \<^verbatim>\<open>select_ids\<close>, so
  the last write to a repeated index stays. \<^verbatim>\<open>vs\<close> has one row per index
  (numpy's broadcasting of a smaller right-hand side is left out: it is a
  \<open>ValueError\<close> here).
\<close>

definition put_rows :: "'a list \<Rightarrow> int list \<Rightarrow> 'a list \<Rightarrow> error + 'a list" where
  "put_rows xs ids vs =
     (if \<not> list_all (index_ok (length xs)) ids then Inl IndexError
      else if length vs \<noteq> length ids then Inl ValueError
      else Inr (fold (\<lambda>(i, v) ys. ys[ix (length xs) i := v]) (zip ids vs) xs))"

text \<open>\<^verbatim>\<open>a[:, js]\<close> reads and writes of one frame (a row of joints).\<close>

definition cols_ok :: "'a list list \<Rightarrow> int list \<Rightarrow> bool" where
  "cols_ok a js = list_all (\<lambda>row. list_all (index_ok (length row)) js) a"

definition take_cols :: "'a list \<Rightarrow> int list \<Rightarrow> 'a list" where
  "take_cols row js = map (\<lambda>j. row ! ix (length row) j) js"

definition put_cols :: "'a list \<Rightarrow> int list \<Rightarrow> 'a list \<Rightarrow> 'a list" where
  "put_cols row js vs = fold (\<lambda>(j, v) r. r[ix (length row) j := v]) (zip js vs) row"

section \<open>The ambient random generator\<close>

text \<open>
  The library draws from Python's global generator. Here the generator is a
  tape of uniform fractions and the number of draws made so far; every draw
  reads the next entry.
\<close>

record rng =
  tape :: "nat \<Rightarrow> real"
  drawn :: nat

text \<open>\<^verbatim>\<open>random.random()\<close>.\<close>

definition py_random :: "rng \<Rightarrow> real \<times> rng" where
  "py_random g = (tape g (drawn g), g\<lparr>drawn := Suc (drawn g)\<rparr>)"

text \<open>
  Modelled from the spec: the module \<^verbatim>\<open>random_utils\<close> (\<^verbatim>\<open>uniform\<close>, \<^verbatim>\<open>randint\<close>,
  \<^verbatim>\<open>choice\<close>, \<^verbatim>\<open>normal\<close>) is imported by the sources and is not among them. The
  spec says what is drawn: a value uniform over a range, an integer uniform
  over \<open>[low, high)\<close>, an index from a categorical distribution, with or without
  replacement, and normally distributed offsets. Each sample is computed from
  one entry of the tape.
\<close>

definition uniform :: "real \<Rightarrow> real \<Rightarrow> rng \<Rightarrow> real \<times> rng" where
  "uniform low high g = (let (u, g') = py_random g in (low + (high - low) * u, g'))"

definition randint :: "int \<Rightarrow> int \<Rightarrow> rng \<Rightarrow> error + (int \<times> rng)" where
  "randint low high g =
     (if high \<le> low then Inl ValueError
      else let (u, g') = py_random g in Inr (low + \<lfloor>u * real_of_int (high - low)\<rfloor>, g'))"

text \<open>Inverse of the cumulative weights: the index whose interval holds \<open>x\<close>.\<close>

fun pick :: "real list \<Rightarrow> real \<Rightarrow> nat" where
  "pick [] x = 0"
| "pick [w] x = 0"
| "pick (w # ws) x = (if x < w then 0 else Suc (pick ws (x - w)))"

definition drop_nth :: "nat \<Rightarrow> 'a list \<Rightarrow> 'a list" where
  "drop_nth j xs = take j xs @ drop (Suc j) xs"

fun choice_seq :: "nat \<Rightarrow> bool \<Rightarrow> real list \<Rightarrow> nat list \<Rightarrow> rng \<Rightarrow> nat list \<times> rng" where
  "choice_seq 0 replace ws cands g = ([], g)"
| "choice_seq (Suc k) replace ws cands g =
     (let (u, g1) = py_random g;
          j = pick ws (u * sum_list ws);
          (rest, g2) = (if replace then choice_seq k replace ws cands g1
                        else choice_seq k replace (drop_nth j ws) (drop_nth j cands) g1)
      in ((cands ! j) # rest, g2))"

text \<open>\<^verbatim>\<open>choice(n, p=ps)\<close>: one index.\<close>

definition choice :: "nat \<Rightarrow> real list \<Rightarrow> rng \<Rightarrow> error + (nat \<times> rng)" where
  "choice n ps g =
     (if n = 0 \<or> length ps \<noteq> n then Inl ValueError
      else let (u, g') = py_random g in Inr (pick ps (u * sum_list ps), g'))"

text \<open>\<^verbatim>\<open>choice(n, size=k, replace=r, p=ps)\<close>; \<^verbatim>\<open>p\<close> absent is the uniform distribution.\<close>

definition choice_size :: "nat \<Rightarrow> int \<Rightarrow> bool \<Rightarrow> real list option \<Rightarrow> rng \<Rightarrow> error + (nat list \<times> rng)" where
  "choice_size n k replace ps g =
     (let ws = (case ps of None \<Rightarrow> replicate n 1 | Some p \<Rightarrow> p)
      in if k < 0 \<or> length ws \<noteq> n \<or> (0 < k \<and> n = 0) \<or> (\<not> replace \<and> int n < k) then Inl ValueError
         else Inr (choice_seq (nat k) replace ws [0..<n] g))"

text \<open>
  \<^verbatim>\<open>normal(loc, scale, shape)\<close>: an array of the requested shape (T, V, C), entry
  by entry from the tape.
\<close>

definition normal :: "real \<Rightarrow> real \<Rightarrow> nat \<times> nat \<times> nat \<Rightarrow> rng \<Rightarrow> real list list list \<times> rng" where
  "normal loc scale shp g =
     (case shp of (T, V, C) \<Rightarrow>
        (map (\<lambda>t. map (\<lambda>v. map (\<lambda>c. loc + scale * tape g (drawn g + (t * V + v) * C + c)) [0..<C]) [0..<V]) [0..<T],
         g\<lparr>drawn := drawn g + T * V * C\<rparr>))"

section \<open>Transforms\<close>

text \<open>
  The leaf operations of \<^verbatim>\<open>transform.py\<close>, \<^verbatim>\<open>occlusion.py\<close> and \<^verbatim>\<open>perturbation.py\<close>,
  each with the attributes its constructor stores. \<^verbatim>\<open>RandomOcclusion.chance\<close> is a
  float (\<open>Inl\<close>) or a list with one entry per joint (\<open>Inr\<close>);
  \<^verbatim>\<open>Jittering\<close> stores the angle range in radians, the distance range and the
  optional joint.
\<close>

datatype transform =
    HorizontalFlip real
  | RandomOcclusion "real + real list"
  | WholeOcclusion
  | SpecificOcclusion "int list"
  | InterpolateOcclusions
  | Jittering "real \<times> real" "real \<times> real" "int option"
  | MovePerturbation real "int list option"
  | SwapPerturbation
  | MirrorPerturbation "(int \<times> int) list"

subsection \<open>transform.py and occlusion.py\<close>

text \<open>\<^verbatim>\<open>data["keypoints"][:, :, 0] = 2 * self.flip_axis - data["keypoints"][:, :, 0]\<close>\<close>

definition apply_HorizontalFlip :: "real \<Rightarrow> data \<Rightarrow> error + data" where
  "apply_HorizontalFlip flip_axis d =
     (if list_ex (list_ex (\<lambda>j. j = [])) (keypoints d) then Inl IndexError
      else Inr (d\<lparr>keypoints := map (map (\<lambda>j. (2 * flip_axis - hd j) # tl j)) (keypoints d)\<rparr>))"

text \<open>\<^verbatim>\<open>data["invalid"][:] = True\<close>\<close>

definition apply_WholeOcclusion :: "data \<Rightarrow> data" where
  "apply_WholeOcclusion d = d\<lparr>invalid := map (map (\<lambda>_. True)) (invalid d)\<rparr>"

text \<open>\<^verbatim>\<open>data["invalid"][:, self.joints] = True\<close>\<close>

definition apply_SpecificOcclusion :: "int list \<Rightarrow> data \<Rightarrow> error + data" where
  "apply_SpecificOcclusion joints d =
     (if \<not> cols_ok (invalid d) joints then Inl IndexError
      else Inr (d\<lparr>invalid := map (\<lambda>row. put_cols row joints (map (\<lambda>_. True) joints)) (invalid d)\<rparr>))"

text \<open>
  The loop of \<^verbatim>\<open>RandomOcclusion.apply\<close> over the joints \<^verbatim>\<open>range(num_joints)\<close>: one
  \<^verbatim>\<open>uniform()\<close> draw per joint, the joint is appended when the draw is below its chance.
\<close>

fun occluded_joints :: "(real + real list) \<Rightarrow> nat list \<Rightarrow> rng \<Rightarrow> error + (int list \<times> rng)" where
  "occluded_joints chance [] g = Inr ([], g)"
| "occluded_joints chance (i # is) g =
     (case (case chance of Inl c \<Rightarrow> Inr c
            | Inr cs \<Rightarrow> if i < length cs then Inr (cs ! i) else Inl IndexError) of
        Inl e \<Rightarrow> Inl e
      | Inr c \<Rightarrow>
          (case uniform 0 1 g of (u, g1) \<Rightarrow>
             (case occluded_joints chance is g1 of
                Inl e \<Rightarrow> Inl e
              | Inr (js, g2) \<Rightarrow> Inr ((if u < c then [int i] else []) @ js, g2))))"

definition apply_RandomOcclusion :: "(real + real list) \<Rightarrow> data \<Rightarrow> rng \<Rightarrow> error + (data \<times> rng)" where
  "apply_RandomOcclusion chance d g =
     (case occluded_joints chance [0..<num_joints (invalid d)] g of
        Inl e \<Rightarrow> Inl e
      | Inr (js, g') \<Rightarrow>
          (case apply_SpecificOcclusion js d of Inl e \<Rightarrow> Inl e | Inr d' \<Rightarrow> Inr (d', g')))"

subsection \<open>InterpolateOcclusions\<close>

text \<open>
  \<^verbatim>\<open>scipy.interpolate.interp1d(x, y, axis=0)\<close>, the linear interpolant through the
  samples \<open>(x, y)\<close> with ascending \<open>x\<close>: a new point is placed on the segment
  whose right end is the first sample not below it (the first segment for
  points at or below the first sample, the last one beyond the last sample).
\<close>

definition lerp :: "nat \<Rightarrow> real list \<Rightarrow> nat \<Rightarrow> real list \<Rightarrow> nat \<Rightarrow> real list" where
  "lerp x0 y0 x1 y1 x =
     map (\<lambda>(a, b). (b - a) / (real x1 - real x0) * (real x - real x0) + a) (zip y0 y1)"

fun interp1d :: "(nat \<times> real list) list \<Rightarrow> nat \<Rightarrow> real list" where
  "interp1d ((x0, y0) # (x1, y1) # ps) x =
     (if x \<le> x1 \<or> ps = [] then lerp x0 y0 x1 y1 x else interp1d ((x1, y1) # ps) x)"
| "interp1d _ x = []"

text \<open>The column of joint \<open>k\<close>: \<^verbatim>\<open>a[:, k]\<close>.\<close>

definition column :: "'a list list \<Rightarrow> nat \<Rightarrow> 'a list" where
  "column a k = map (\<lambda>row. row ! k) a"

text \<open>
  One round of the loop of \<^verbatim>\<open>InterpolateOcclusions.apply\<close>, for joint \<open>k\<close>.
  \<^verbatim>\<open>interpolate_map\<close> is the invalid mask of the joint with the frames before the
  first valid one and from the last valid one on cleared.
\<close>

definition valid_ids :: "bool list \<Rightarrow> nat list" where
  "valid_ids msk = filter (\<lambda>t. \<not> msk ! t) [0..<length msk]"

definition interpolate_map :: "bool list \<Rightarrow> bool list" where
  "interpolate_map msk =
     (let min_valid_id = Min (set (valid_ids msk));
          max_valid_id = Max (set (valid_ids msk))
      in map (\<lambda>t. msk ! t \<and> min_valid_id \<le> t \<and> t < max_valid_id) [0..<length msk])"

definition interpolate_joint :: "nat \<Rightarrow> data \<Rightarrow> data" where
  "interpolate_joint k d =
     (let kp = column (keypoints d) k;
          msk = column (invalid d) k
      in if length (valid_ids msk) < 2 then d
         else let f = interp1d (map (\<lambda>t. (t, kp ! t)) (valid_ids msk));
                  m = interpolate_map msk
              in d\<lparr>keypoints := map (\<lambda>t. if m ! t then (keypoints d ! t)[k := f t] else keypoints d ! t)
                                    [0..<length (keypoints d)],
                    invalid := map (\<lambda>t. if m ! t then (invalid d ! t)[k := False] else invalid d ! t)
                                    [0..<length (invalid d)]\<rparr>)"

text \<open>
  What the round for one joint leaves in its own column, as functions of the
  column of keypoints \<open>kp\<close> and the column \<open>msk\<close> of the invalid mask.
\<close>

definition joint_kp :: "real list list \<Rightarrow> bool list \<Rightarrow> nat \<Rightarrow> real list" where
  "joint_kp kp msk t =
     (if length (valid_ids msk) < 2 then kp ! t
      else if interpolate_map msk ! t then interp1d (map (\<lambda>t. (t, kp ! t)) (valid_ids msk)) t
      else kp ! t)"

definition joint_invalid :: "bool list \<Rightarrow> nat \<Rightarrow> bool" where
  "joint_invalid msk t =
     (if length (valid_ids msk) < 2 then msk ! t
      else if interpolate_map msk ! t then False
      else msk ! t)"

definition apply_InterpolateOcclusions :: "data \<Rightarrow> error + data" where
  "apply_InterpolateOcclusions d =
     (if \<not> shape_matches (invalid d) (keypoints d) then Inl IndexError
      else Inr (fold interpolate_joint [0..<num_joints (keypoints d)] d))"

subsection \<open>perturbation.py\<close>

text \<open>
  The bounding box of the valid joints of one frame, per coordinate:
  \<^verbatim>\<open>np.min(keypoints, axis=2, where=valid, initial=np.inf)\<close> with the infinite
  entries (no valid joint) set to 0, and the same with \<^verbatim>\<open>np.max\<close>.
\<close>

definition valid_joints :: "real list list \<Rightarrow> bool list \<Rightarrow> real list list" where
  "valid_joints frame row = map fst (filter (\<lambda>(j, b). \<not> b) (zip frame row))"

definition bottom_left_bb :: "real list list \<Rightarrow> bool list \<Rightarrow> real list" where
  "bottom_left_bb frame row =
     map (\<lambda>c. case map (\<lambda>j. j ! c) (valid_joints frame row) of [] \<Rightarrow> 0 | x # xs \<Rightarrow> fold min xs x) [0..<2]"

definition top_right_bb :: "real list list \<Rightarrow> bool list \<Rightarrow> real list" where
  "top_right_bb frame row =
     map (\<lambda>c. case map (\<lambda>j. j ! c) (valid_joints frame row) of [] \<Rightarrow> 0 | x # xs \<Rightarrow> fold max xs x) [0..<2]"

text \<open>
  \<^verbatim>\<open>Jittering._clip_bb\<close>. The quotient by \<^verbatim>\<open>temp_direction\<close> is 0 where the direction
  component is 0 (the source divides by infinity there).
\<close>

definition np_max :: "real list \<Rightarrow> real" where
  "np_max xs = fold max (tl xs) (hd xs)"

definition clip_bb :: "real list \<Rightarrow> real list \<Rightarrow> real list \<Rightarrow> real list \<Rightarrow> real list" where
  "clip_bb keypoint bottom_left top_right direction =
     (if list_ex (\<lambda>(k, b). k < b) (zip keypoint bottom_left)
         \<or> list_ex (\<lambda>(k, t). k > t) (zip keypoint top_right)
      then let db = map (\<lambda>(k, b). min (k - b) 0) (zip keypoint bottom_left);
               dt = map (\<lambda>(k, t). max (k - t) 0) (zip keypoint top_right);
               db' = map (\<lambda>(x, dr). if dr = 0 then 0 else x / dr) (zip db direction);
               dt' = map (\<lambda>(x, dr). if dr = 0 then 0 else x / dr) (zip dt direction);
               dm = np_max (db' @ dt')
           in map (\<lambda>(k, dr). k - dm * dr) (zip keypoint direction)
      else keypoint)"

text \<open>
  One round of the loop of \<^verbatim>\<open>Jittering.apply\<close>, on frame \<open>frame\<close> with its row
  \<open>row\<close> of the invalid mask. \<^verbatim>\<open>if self.keypoint:\<close> is false for \<^verbatim>\<open>None\<close> and for
  joint 0: a joint is drawn then.
\<close>

definition jitter_frame ::
  "real \<times> real \<Rightarrow> real \<times> real \<Rightarrow> int option \<Rightarrow> nat \<Rightarrow> real list list \<Rightarrow> bool list \<Rightarrow> rng
     \<Rightarrow> error + (real list list \<times> rng)" where
  "jitter_frame radians distance keypoint V frame row g =
     (case (case keypoint of
              Some k \<Rightarrow> if k \<noteq> 0 then Inr (k, g) else randint 0 (int V) g
            | None \<Rightarrow> randint 0 (int V) g) of
        Inl e \<Rightarrow> Inl e
      | Inr (keypoint_id, g1) \<Rightarrow>
          if \<not> index_ok (length row) keypoint_id \<or> \<not> index_ok (length frame) keypoint_id
          then Inl IndexError
          else if row ! ix (length row) keypoint_id then Inr (frame, g1)
          else (case uniform (fst radians) (snd radians) g1 of (radian, g2) \<Rightarrow>
                 (case uniform (fst distance) (snd distance) g2 of (amount, g3) \<Rightarrow>
                    let direction = [cos radian, sin radian];
                        kpt = frame ! ix (length frame) keypoint_id;
                        new_kp = map (\<lambda>(k, dr). k + amount * dr) (zip kpt direction);
                        clipped = clip_bb new_kp (bottom_left_bb frame row) (top_right_bb frame row) direction
                    in Inr (frame[ix (length frame) keypoint_id := clipped], g3))))"

fun jitter_frames ::
  "real \<times> real \<Rightarrow> real \<times> real \<Rightarrow> int option \<Rightarrow> nat \<Rightarrow> (real list list \<times> bool list) list \<Rightarrow> rng
     \<Rightarrow> error + (real list list list \<times> rng)" where
  "jitter_frames radians distance keypoint V [] g = Inr ([], g)"
| "jitter_frames radians distance keypoint V ((frame, row) # rest) g =
     (case jitter_frame radians distance keypoint V frame row g of
        Inl e \<Rightarrow> Inl e
      | Inr (frame', g1) \<Rightarrow>
          (case jitter_frames radians distance keypoint V rest g1 of
             Inl e \<Rightarrow> Inl e
           | Inr (rest', g2) \<Rightarrow> Inr (frame' # rest', g2)))"

definition apply_Jittering ::
  "real \<times> real \<Rightarrow> real \<times> real \<Rightarrow> int option \<Rightarrow> data \<Rightarrow> rng \<Rightarrow> error + (data \<times> rng)" where
  "apply_Jittering radians distance keypoint d g =
     (if \<not> list_all (list_all (\<lambda>j. length j = 2)) (keypoints d) then Inl AssertionError
      else if \<not> shape_matches (invalid d) (keypoints d) then Inl ValueError
      else (case jitter_frames radians distance keypoint (num_joints (keypoints d))
                   (zip (keypoints d) (invalid d)) g of
              Inl e \<Rightarrow> Inl e
            | Inr (kp, g') \<Rightarrow> Inr (d\<lparr>keypoints := kp\<rparr>, g')))"

text \<open>\<^verbatim>\<open>MovePerturbation.apply\<close>: normal offsets, zero at invalid joints, added in place.\<close>

definition vec_add :: "real list \<Rightarrow> real list \<Rightarrow> real list" where
  "vec_add a b = map (\<lambda>c. a ! c + b ! c) [0..<length a]"

definition apply_MovePerturbation ::
  "real \<Rightarrow> int list option \<Rightarrow> data \<Rightarrow> rng \<Rightarrow> error + (data \<times> rng)" where
  "apply_MovePerturbation variance joints d g =
     (let kp = keypoints d; T = length kp; V = num_joints kp; C = num_coords kp;
          js = (case joints of None \<Rightarrow> [] | Some l \<Rightarrow> l)
      in if js \<noteq> [] then
           (case normal 0 variance (T, length js, C) g of (noise, g') \<Rightarrow>
              if \<not> shape_matches (invalid d) kp \<or> \<not> cols_ok kp js \<or> \<not> cols_ok (invalid d) js
              then Inl IndexError
              else Inr (d\<lparr>keypoints :=
                     map (\<lambda>t. put_cols (kp ! t) js
                            (map (\<lambda>m. if take_cols (invalid d ! t) js ! m
                                       then take_cols (kp ! t) js ! m
                                       else vec_add (take_cols (kp ! t) js ! m) (noise ! t ! m))
                               [0..<length js]))
                       [0..<T]\<rparr>, g'))
         else
           (case normal 0 variance (T, V, C) g of (noise, g') \<Rightarrow>
              if \<not> shape_matches (invalid d) kp then Inl IndexError
              else Inr (d\<lparr>keypoints :=
                     map (\<lambda>t. map (\<lambda>v. if invalid d ! t ! v then kp ! t ! v
                                         else vec_add (kp ! t ! v) (noise ! t ! v))
                                 [0..<length (kp ! t)])
                       [0..<T]\<rparr>, g')))"

text \<open>Swapping two joints in every frame, as both perturbations below do through a copy.\<close>

definition swap_cols :: "int \<Rightarrow> int \<Rightarrow> real list list list \<Rightarrow> error + real list list list" where
  "swap_cols p q kp =
     (if \<not> cols_ok kp [p, q] then Inl IndexError
      else Inr (map (\<lambda>frame. (frame[ix (length frame) p := frame ! ix (length frame) q])
                               [ix (length frame) q := frame ! ix (length frame) p]) kp))"

text \<open>
  The loop \<^verbatim>\<open>while i1 == i2: [i1, i2] = random_utils.randint(0, length, 2)\<close> of
  \<^verbatim>\<open>SwapPerturbation.apply\<close>. It does not end while the generator keeps giving equal
  pairs (one joint): the value is \<open>None\<close> then.
\<close>

partial_function (option) draw_distinct :: "int \<Rightarrow> rng \<Rightarrow> (error + (int \<times> int \<times> rng)) option" where
  "draw_distinct n g =
     (case randint 0 n g of
        Inl e \<Rightarrow> Some (Inl e)
      | Inr (i1, g1) \<Rightarrow>
          (case randint 0 n g1 of
             Inl e \<Rightarrow> Some (Inl e)
           | Inr (i2, g2) \<Rightarrow> if i1 = i2 then draw_distinct n g2 else Some (Inr (i1, i2, g2))))"

definition apply_SwapPerturbation :: "data \<Rightarrow> rng \<Rightarrow> error + (data \<times> rng)" where
  "apply_SwapPerturbation d g =
     (case draw_distinct (int (num_joints (keypoints d))) g of
        None \<Rightarrow> Inl Diverges
      | Some (Inl e) \<Rightarrow> Inl e
      | Some (Inr (i1, i2, g')) \<Rightarrow>
          (case swap_cols i1 i2 (keypoints d) of
             Inl e \<Rightarrow> Inl e
           | Inr kp \<Rightarrow> Inr (d\<lparr>keypoints := kp\<rparr>, g')))"

fun mirror :: "(int \<times> int) list \<Rightarrow> real list list list \<Rightarrow> error + real list list list" where
  "mirror [] kp = Inr kp"
| "mirror ((p, q) # rest) kp =
     (case swap_cols p q kp of Inl e \<Rightarrow> Inl e | Inr kp' \<Rightarrow> mirror rest kp')"

definition apply_MirrorPerturbation :: "(int \<times> int) list \<Rightarrow> data \<Rightarrow> error + data" where
  "apply_MirrorPerturbation opposite_points d =
     (case mirror opposite_points (keypoints d) of
        Inl e \<Rightarrow> Inl e
      | Inr kp \<Rightarrow> Inr (d\<lparr>keypoints := kp\<rparr>))"

text \<open>\<^verbatim>\<open>self.apply(**data)\<close>, by the class of the transform.\<close>

fun apply_transform :: "transform \<Rightarrow> data \<Rightarrow> rng \<Rightarrow> error + (data \<times> rng)" where
  "apply_transform (HorizontalFlip flip_axis) d g =
     (case apply_HorizontalFlip flip_axis d of Inl e \<Rightarrow> Inl e | Inr d' \<Rightarrow> Inr (d', g))"
| "apply_transform (RandomOcclusion chance) d g = apply_RandomOcclusion chance d g"
| "apply_transform WholeOcclusion d g = Inr (apply_WholeOcclusion d, g)"
| "apply_transform (SpecificOcclusion joints) d g =
     (case apply_SpecificOcclusion joints d of Inl e \<Rightarrow> Inl e | Inr d' \<Rightarrow> Inr (d', g))"
| "apply_transform InterpolateOcclusions d g =
     (case apply_InterpolateOcclusions d of Inl e \<Rightarrow> Inl e | Inr d' \<Rightarrow> Inr (d', g))"
| "apply_transform (Jittering radians distance keypoint) d g = apply_Jittering radians distance keypoint d g"
| "apply_transform (MovePerturbation variance joints) d g = apply_MovePerturbation variance joints d g"
| "apply_transform SwapPerturbation d g = apply_SwapPerturbation d g"
| "apply_transform (MirrorPerturbation opposite_points) d g =
     (case apply_MirrorPerturbation opposite_points d of Inl e \<Rightarrow> Inl e | Inr d' \<Rightarrow> Inr (d', g))"

text \<open>
  \<^verbatim>\<open>Jittering.__init__\<close>: the two range checks, then the angles in radians.
\<close>

definition init_Jittering :: "real \<times> real \<Rightarrow> real \<times> real \<Rightarrow> int option \<Rightarrow> error + transform" where
  "init_Jittering angles distance keypoint =
     (if \<not> fst angles \<le> snd angles then Inl ValueError
      else if \<not> fst distance \<le> snd distance then Inl ValueError
      else Inr (Jittering (fst angles * pi / 180, snd angles * pi / 180) distance keypoint))"

section \<open>Selections\<close>

text \<open>
  The four subclasses of \<^verbatim>\<open>BaseSelect\<close> differ in \<^verbatim>\<open>get_selection\<close> only. A selector
  holds the attributes the constructor stores: \<^verbatim>\<open>max_num\<close>, \<^verbatim>\<open>min_num\<close> and
  \<^verbatim>\<open>contiguous\<close>; \<^verbatim>\<open>frames\<close>; \<^verbatim>\<open>size\<close> and \<^verbatim>\<open>border_num\<close>; \<^verbatim>\<open>size\<close>, \<^verbatim>\<open>part\<close> and
  \<^verbatim>\<open>contiguous\<close>.
\<close>

datatype selector =
    SelectRandomFrames int int bool
  | SelectFrames "int list"
  | SelectRandomWithBorder int int
  | SelectHighMovement int "int list option" bool

text \<open>\<^verbatim>\<open>np.arange(start, end)\<close>\<close>

definition arange :: "int \<Rightarrow> int \<Rightarrow> int list" where
  "arange start stop = [start..stop - 1]"

subsection \<open>Highest movement\<close>

text \<open>\<^verbatim>\<open>np.linalg.norm\<close> of one displacement and \<^verbatim>\<open>np.mean\<close> of one row.\<close>

definition norm2 :: "real list \<Rightarrow> real" where
  "norm2 v = sqrt (sum_list (map (\<lambda>x. x * x) v))"

definition vec_sub :: "real list \<Rightarrow> real list \<Rightarrow> real list" where
  "vec_sub a b = map (\<lambda>c. a ! c - b ! c) [0..<length a]"

definition mean :: "real list \<Rightarrow> real" where
  "mean xs = sum_list xs / real (length xs)"

text \<open>
  The movement of \<^verbatim>\<open>SelectHighMovement.get_selection\<close>: for every gap \<open>f\<close> between
  the frames \<open>f\<close> and \<open>f + 1\<close> the norm of the displacement of every joint, set
  to 0 where the joint is invalid in one of the two frames, averaged over the
  joints.
\<close>

definition movement :: "real list list list \<Rightarrow> bool list list \<Rightarrow> real list" where
  "movement kp msk =
     map (\<lambda>f. mean (map (\<lambda>k. if msk ! f ! k \<or> msk ! (f + 1) ! k then 0
                             else norm2 (vec_sub (kp ! (f + 1) ! k) (kp ! f ! k)))
                     [0..<length (kp ! f)]))
       [0..<length kp - 1]"

text \<open>
  The search loop of the contiguous case:
  \<^verbatim>\<open>for i in range(length - self.size): sum = np.sum(movement[i : i + self.size]); if sum > max_sum: ...\<close>
\<close>

fun max_window :: "real list \<Rightarrow> int \<Rightarrow> nat list \<Rightarrow> real \<Rightarrow> nat \<Rightarrow> nat" where
  "max_window m sz [] max_sum max_index = max_index"
| "max_window m sz (i # is) max_sum max_index =
     (if sum_list (py_slice m (int i) (int i + sz)) > max_sum
      then max_window m sz is (sum_list (py_slice m (int i) (int i + sz))) i
      else max_window m sz is max_sum max_index)"

text \<open>
  \<^verbatim>\<open>np.argsort\<close>, as a stable sort of the indices (numpy's default sort leaves the
  order of equal scores open).
\<close>

definition argsort :: "real list \<Rightarrow> nat list" where
  "argsort m = sort_key (\<lambda>i. m ! i) [0..<length m]"

text \<open>\<^verbatim>\<open>if self.part: a = a[:, self.part]\<close> (an empty list is false).\<close>

definition part_cols :: "int list option \<Rightarrow> 'a list list \<Rightarrow> 'a list list" where
  "part_cols part a =
     (case part of None \<Rightarrow> a | Some js \<Rightarrow> if js = [] then a else map (\<lambda>row. take_cols row js) a)"

definition high_movement :: "int \<Rightarrow> int list option \<Rightarrow> bool \<Rightarrow> data \<Rightarrow> error + int list" where
  "high_movement sz part contiguous d =
     (let js = (case part of None \<Rightarrow> [] | Some l \<Rightarrow> l)
      in if \<not> cols_ok (keypoints d) js \<or> \<not> cols_ok (invalid d) js then Inl IndexError
         else if \<not> shape_matches (invalid d) (keypoints d) then Inl IndexError
         else let m = movement (part_cols part (keypoints d)) (part_cols part (invalid d))
              in if contiguous
                 then let max_index = max_window m sz [0..<nat (int (length (keypoints d)) - sz)] 0 0
                      in Inr (arange (int max_index) (int max_index + sz))
                 else Inr (map int (py_slice_from (argsort m) (- sz))))"


subsection \<open>get_selection\<close>

fun get_selection :: "selector \<Rightarrow> data \<Rightarrow> rng \<Rightarrow> error + (int list \<times> rng)" where
  "get_selection (SelectRandomFrames max_num min_num contiguous) d g =
     (case randint min_num (max_num + 1) g of
        Inl e \<Rightarrow> Inl e
      | Inr (sz, g1) \<Rightarrow>
          if contiguous
          then (case randint 0 (int (length (keypoints d)) - sz + 1) g1 of
                  Inl e \<Rightarrow> Inl e
                | Inr (start, g2) \<Rightarrow> Inr (arange start (start + sz), g2))
          else (case choice_size (length (keypoints d)) sz False None g1 of
                  Inl e \<Rightarrow> Inl e
                | Inr (ids, g2) \<Rightarrow> Inr (map int ids, g2)))"
| "get_selection (SelectFrames frames) d g =
     (if list_all (\<lambda>f. 0 \<le> f \<and> f < int (length (keypoints d))) frames
      then Inr (frames, g) else Inl AssertionError)"
| "get_selection (SelectRandomWithBorder sz border_num) d g =
     (case randint 0 (int (length (keypoints d)) - sz + 1) g of
        Inl e \<Rightarrow> Inl e
      | Inr (start, g1) \<Rightarrow> Inr (arange start (start + sz), g1))"
| "get_selection (SelectHighMovement sz part contiguous) d g =
     (case high_movement sz part contiguous d of Inl e \<Rightarrow> Inl e | Inr ids \<Rightarrow> Inr (ids, g))"

text \<open>
  The two loops of \<^verbatim>\<open>BaseSelect.__call__\<close> over the entries of \<^verbatim>\<open>data\<close>:
  \<^verbatim>\<open>select_data[key] = d[select_ids]\<close> and \<^verbatim>\<open>d[select_ids] = select_data[key]\<close>.
  The second writes the rows of an array of the shape that was taken out.
\<close>

definition select_data :: "data \<Rightarrow> int list \<Rightarrow> error + data" where
  "select_data d ids =
     (case take_rows (keypoints d) ids of Inl e \<Rightarrow> Inl e | Inr k \<Rightarrow>
     (case take_rows (invalid d) ids of Inl e \<Rightarrow> Inl e | Inr m \<Rightarrow>
     (case take_rows (peturbation d) ids of Inl e \<Rightarrow> Inl e | Inr pm \<Rightarrow>
        Inr \<lparr>keypoints = k, invalid = m, peturbation = pm, force_apply = None\<rparr>)))"

definition write_back :: "data \<Rightarrow> int list \<Rightarrow> data \<Rightarrow> data \<Rightarrow> error + data" where
  "write_back d ids sd sd' =
     (if kp_shape (keypoints sd') \<noteq> kp_shape (keypoints sd)
         \<or> mask_shape (invalid sd') \<noteq> mask_shape (invalid sd)
         \<or> mask_shape (peturbation sd') \<noteq> mask_shape (peturbation sd) then Inl ValueError
      else
     (case put_rows (keypoints d) ids (keypoints sd') of Inl e \<Rightarrow> Inl e | Inr k \<Rightarrow>
     (case put_rows (invalid d) ids (invalid sd') of Inl e \<Rightarrow> Inl e | Inr m \<Rightarrow>
     (case put_rows (peturbation d) ids (peturbation sd') of Inl e \<Rightarrow> Inl e | Inr pm \<Rightarrow>
        Inr (d\<lparr>keypoints := k, invalid := m, peturbation := pm\<rparr>)))))"

section \<open>Operations and their calls\<close>

text \<open>
  An operation is a transform (with \<^verbatim>\<open>always_apply\<close> and \<^verbatim>\<open>p\<close>), a selection (with
  its \<^verbatim>\<open>transforms\<close> and \<^verbatim>\<open>p\<close>) or one of the classes of \<^verbatim>\<open>compose.py\<close>, with
  \<^verbatim>\<open>transforms\<close> and \<^verbatim>\<open>p\<close> first: \<^verbatim>\<open>Compose\<close> adds \<^verbatim>\<open>set_invalid_to_zero\<close>, \<^verbatim>\<open>OneOf\<close>
  adds \<^verbatim>\<open>transforms_ps\<close>, \<^verbatim>\<open>SomeOf\<close> adds \<^verbatim>\<open>n\<close>, \<^verbatim>\<open>replace\<close> and \<^verbatim>\<open>transforms_ps\<close>.
\<close>

datatype op =
    Transform transform bool real
  | Select selector "op list" real
  | Compose "op list" real bool
  | OneOf "op list" real "real list"
  | SomeOf "op list" real int bool "real list"
  | OneOrOther "op list" real
  | Sequential "op list" real
  | NoOp real

text \<open>The attribute \<^verbatim>\<open>p\<close>.\<close>

fun p_of :: "op \<Rightarrow> real" where
  "p_of (Transform t always_apply p) = p"
| "p_of (Select s ts p) = p"
| "p_of (Compose ts p z) = p"
| "p_of (OneOf ts p ps) = p"
| "p_of (SomeOf ts p n replace ps) = p"
| "p_of (OneOrOther ts p) = p"
| "p_of (Sequential ts p) = p"
| "p_of (NoOp p) = p"

text \<open>
  \<^verbatim>\<open>Compose.check_args\<close> on the keyword arguments of the call, each present or not.
\<close>

definition check_args ::
  "real list list list option \<Rightarrow> bool list list option \<Rightarrow> bool list list option \<Rightarrow> error + data" where
  "check_args kp msk pet =
     (case kp of
        None \<Rightarrow> Inl KeyError
      | Some k \<Rightarrow>
          (case (case msk of None \<Rightarrow> Inr (map (map (\<lambda>_. False)) k)
                 | Some m \<Rightarrow> if shape_matches m k then Inr m else Inl AssertionError) of
             Inl e \<Rightarrow> Inl e
           | Inr m \<Rightarrow>
               (case (case pet of None \<Rightarrow> Inr (map (map (\<lambda>_. False)) k)
                      | Some pm \<Rightarrow> if shape_matches pm k then Inr pm else Inl AssertionError) of
                  Inl e \<Rightarrow> Inl e
                | Inr pm \<Rightarrow> Inr \<lparr>keypoints = k, invalid = m, peturbation = pm, force_apply = None\<rparr>)))"

text \<open>\<^verbatim>\<open>data["keypoints"][data["invalid"]] = 0.0\<close>\<close>

definition zero_invalid :: "real list list list \<Rightarrow> bool list list \<Rightarrow> real list list list" where
  "zero_invalid k m =
     map (\<lambda>t. map (\<lambda>v. if m ! t ! v then map (\<lambda>_. 0) (k ! t ! v) else k ! t ! v) [0..<length (k ! t)])
       [0..<length k]"

definition set_invalid_to_zero :: "data \<Rightarrow> error + data" where
  "set_invalid_to_zero d =
     (if \<not> shape_matches (invalid d) (keypoints d) then Inl IndexError
      else Inr (d\<lparr>keypoints := zero_invalid (keypoints d) (invalid d)\<rparr>))"

text \<open>
  The gate \<^verbatim>\<open>force_apply or random.random() < self.p\<close>: Python evaluates the draw
  only when \<^verbatim>\<open>force_apply\<close> is false.
\<close>

definition gate :: "bool \<Rightarrow> real \<Rightarrow> rng \<Rightarrow> bool \<times> rng" where
  "gate force p g = (if force then (True, g) else (case py_random g of (u, g') \<Rightarrow> (u < p, g')))"

text \<open>
  \<open>call t d g\<close> is \<^verbatim>\<open>t(**d)\<close>: the keyword \<^verbatim>\<open>force_apply\<close>, when the caller passes it,
  is the entry \<open>force_apply\<close> of \<open>d\<close>. \<^verbatim>\<open>BaseTransform\<close>, \<^verbatim>\<open>BaseSelect\<close>,
  \<^verbatim>\<open>Compose\<close>, \<^verbatim>\<open>OneOf\<close>, \<^verbatim>\<open>SomeOf\<close> and \<^verbatim>\<open>OneOrOther\<close> name the parameter and so take
  it out of the dictionary; \<^verbatim>\<open>Sequential\<close> and \<^verbatim>\<open>NoOp\<close> are declared
  \<^verbatim>\<open>__call__(self, **data)\<close> and keep it in \<^verbatim>\<open>data\<close>.
  \<open>call_each\<close> is the loop \<^verbatim>\<open>for t in transforms: data = t(**data)\<close>;
  \<open>call_forced ts i\<close> is \<^verbatim>\<open>transforms[i](force_apply=True, **data)\<close>, a \<open>TypeError\<close>
  when \<^verbatim>\<open>data\<close> holds the keyword already; \<open>call_picked\<close> is the loop of \<^verbatim>\<open>SomeOf\<close>
  over the drawn indices.
\<close>

fun call :: "op \<Rightarrow> data \<Rightarrow> rng \<Rightarrow> error + (data \<times> rng)"
and call_each :: "op list \<Rightarrow> data \<Rightarrow> rng \<Rightarrow> error + (data \<times> rng)"
and call_forced :: "op list \<Rightarrow> nat \<Rightarrow> data \<Rightarrow> rng \<Rightarrow> error + (data \<times> rng)"
and call_picked :: "op list \<Rightarrow> nat list \<Rightarrow> data \<Rightarrow> rng \<Rightarrow> error + (data \<times> rng)" where
  "call (Transform t always_apply p) d g =
     (case py_random g of (u, g1) \<Rightarrow>
        if u < p \<or> always_apply \<or> force_apply d = Some True
        then apply_transform t (d\<lparr>force_apply := None\<rparr>) g1
        else Inr (d\<lparr>force_apply := None\<rparr>, g1))"
| "call (Select s ts p) d g =
     (case gate (force_apply d = Some True) p g of (run, g1) \<Rightarrow>
        if \<not> run then Inr (d\<lparr>force_apply := None\<rparr>, g1)
        else (case get_selection s (d\<lparr>force_apply := None\<rparr>) g1 of
                Inl e \<Rightarrow> Inl e
              | Inr (select_ids, g2) \<Rightarrow>
                  (case select_data d select_ids of
                     Inl e \<Rightarrow> Inl e
                   | Inr sd \<Rightarrow>
                       (case call_each ts sd g2 of
                          Inl e \<Rightarrow> Inl e
                        | Inr (sd', g3) \<Rightarrow>
                            (case write_back (d\<lparr>force_apply := None\<rparr>) select_ids sd sd' of
                               Inl e \<Rightarrow> Inl e
                             | Inr d' \<Rightarrow> Inr (d', g3))))))"
| "call (Compose ts p set_zero) d g =
     (case check_args (Some (keypoints d)) (Some (invalid d)) (Some (peturbation d)) of
        Inl e \<Rightarrow> Inl e
      | Inr d0 \<Rightarrow>
          (case call_each ts d0 g of
             Inl e \<Rightarrow> Inl e
           | Inr (d1, g1) \<Rightarrow>
               if set_zero
               then (case set_invalid_to_zero d1 of Inl e \<Rightarrow> Inl e | Inr d2 \<Rightarrow> Inr (d2, g1))
               else Inr (d1, g1)))"
| "call (OneOf ts p transforms_ps) d g =
     (if transforms_ps = [] then Inr (d\<lparr>force_apply := None\<rparr>, g)
      else (case gate (force_apply d = Some True) p g of (run, g1) \<Rightarrow>
              if \<not> run then Inr (d\<lparr>force_apply := None\<rparr>, g1)
              else (case choice (length ts) transforms_ps g1 of
                      Inl e \<Rightarrow> Inl e
                    | Inr (idx, g2) \<Rightarrow> call_forced ts idx (d\<lparr>force_apply := None\<rparr>) g2)))"
| "call (SomeOf ts p n replace transforms_ps) d g =
     (if transforms_ps = [] then Inr (d\<lparr>force_apply := None\<rparr>, g)
      else (case gate (force_apply d = Some True) p g of (run, g1) \<Rightarrow>
              if \<not> run then Inr (d\<lparr>force_apply := None\<rparr>, g1)
              else (case choice_size (length ts) n replace (Some transforms_ps) g1 of
                      Inl e \<Rightarrow> Inl e
                    | Inr (idx, g2) \<Rightarrow> call_picked ts idx (d\<lparr>force_apply := None\<rparr>) g2)))"
| "call (OneOrOther ts p) d g =
     (case py_random g of (u, g1) \<Rightarrow>
        if u < p then call_forced ts 0 (d\<lparr>force_apply := None\<rparr>) g1
        else call_forced ts (length ts - 1) (d\<lparr>force_apply := None\<rparr>) g1)"
| "call (Sequential ts p) d g =
     (case py_random g of (u, g1) \<Rightarrow> if u < p then call_each ts d g1 else Inr (d, g1))"
| "call (NoOp p) d g = Inr (d, g)"
| "call_each [] d g = Inr (d, g)"
| "call_each (t # ts) d g =
     (case call t d g of Inl e \<Rightarrow> Inl e | Inr (d', g') \<Rightarrow> call_each ts d' g')"
| "call_forced [] i d g = Inl IndexError"
| "call_forced (t # ts) 0 d g =
     (if force_apply d \<noteq> None then Inl TypeError else call t (d\<lparr>force_apply := Some True\<rparr>) g)"
| "call_forced (t # ts) (Suc i) d g = call_forced ts i d g"
| "call_picked ts [] d g = Inr (d, g)"
| "call_picked ts (i # is) d g =
     (case call_forced ts i d g of Inl e \<Rightarrow> Inl e | Inr (d', g') \<Rightarrow> call_picked ts is d' g')"

section \<open>Constructors\<close>

text \<open>
  \<^verbatim>\<open>OneOf.__init__\<close> and \<^verbatim>\<open>SomeOf.__init__\<close> normalise the weights of the children:
  \<^verbatim>\<open>s = sum(transforms_ps); self.transforms_ps = [t / s for t in transforms_ps]\<close>.
  The weights are Python floats, whose division by zero raises; the list
  comprehension divides once per child, so it divides nothing for no children.
\<close>

definition normalize_ps :: "op list \<Rightarrow> error + real list" where
  "normalize_ps ts =
     (let transforms_ps = map p_of ts; s = sum_list transforms_ps
      in if transforms_ps \<noteq> [] \<and> s = 0 then Inl ZeroDivisionError
         else Inr (map (\<lambda>t. t / s) transforms_ps))"

definition init_OneOf :: "op list \<Rightarrow> real \<Rightarrow> error + op" where
  "init_OneOf ts p = (case normalize_ps ts of Inl e \<Rightarrow> Inl e | Inr ps \<Rightarrow> Inr (OneOf ts p ps))"

definition init_SomeOf :: "op list \<Rightarrow> int \<Rightarrow> bool \<Rightarrow> real \<Rightarrow> error + op" where
  "init_SomeOf ts n replace p =
     (case normalize_ps ts of Inl e \<Rightarrow> Inl e | Inr ps \<Rightarrow> Inr (SomeOf ts p n replace ps))"

text \<open>\<^verbatim>\<open>OneOrOther.__init__\<close>: \<^verbatim>\<open>first\<close> and \<^verbatim>\<open>second\<close>, or \<^verbatim>\<open>transforms\<close>.\<close>

definition init_OneOrOther :: "op option \<Rightarrow> op option \<Rightarrow> op list option \<Rightarrow> real \<Rightarrow> error + op" where
  "init_OneOrOther first second transforms p =
     (case transforms of
        Some ts \<Rightarrow> Inr (OneOrOther ts p)
      | None \<Rightarrow>
          (case (first, second) of
             (Some a, Some b) \<Rightarrow> Inr (OneOrOther [a, b] p)
           | _ \<Rightarrow> Inl ValueError))"

text \<open>The constructors of \<^verbatim>\<open>select.py\<close>; two of them draw the window size once, here.\<close>

definition init_SelectRandomFrames :: "op list \<Rightarrow> real \<Rightarrow> int \<Rightarrow> int \<Rightarrow> bool \<Rightarrow> error + op" where
  "init_SelectRandomFrames ts p max_num min_num contiguous =
     (if max_num \<ge> min_num then Inr (Select (SelectRandomFrames max_num min_num contiguous) ts p)
      else Inl AssertionError)"

definition init_SelectRandomWithBorder ::
  "op list \<Rightarrow> op list \<Rightarrow> real \<Rightarrow> int \<Rightarrow> int \<Rightarrow> int \<Rightarrow> rng \<Rightarrow> error + (op \<times> rng)" where
  "init_SelectRandomWithBorder inner_transforms ts p min_num max_num border_num g =
     (case randint min_num (max_num + 1) g of
        Inl e \<Rightarrow> Inl e
      | Inr (inner_size, g') \<Rightarrow>
          Inr (Select (SelectRandomWithBorder (inner_size + 2 * border_num) border_num)
                 (Select (SelectFrames (arange border_num (border_num + inner_size))) inner_transforms 1 # ts)
                 p, g'))"

definition init_SelectHighMovement ::
  "op list \<Rightarrow> real \<Rightarrow> int \<Rightarrow> int \<Rightarrow> int list option \<Rightarrow> bool \<Rightarrow> rng \<Rightarrow> error + (op \<times> rng)" where
  "init_SelectHighMovement ts p min_num max_num part contiguous g =
     (case randint min_num (max_num + 1) g of
        Inl e \<Rightarrow> Inl e
      | Inr (sz, g') \<Rightarrow> Inr (Select (SelectHighMovement sz part contiguous) ts p, g'))"

section \<open>Valid records\<close>

text \<open>
  A numpy array is rectangular: all frames have the same number of joints
  and all joints the same number of coordinates. A valid record has
  rectangular keypoints and masks of the shape \<^verbatim>\<open>keypoints.shape[:-1]\<close>.
\<close>

definition uniform_list :: "'a list \<Rightarrow> bool" where
  "uniform_list xs = list_all (\<lambda>x. list_all (\<lambda>y. x = y) xs) xs"

definition valid_data :: "data \<Rightarrow> bool" where
  "valid_data d =
     (uniform_list (kp_shape (keypoints d)) \<and> list_all uniform_list (kp_shape (keypoints d))
      \<and> shape_matches (invalid d) (keypoints d) \<and> shape_matches (peturbation d) (keypoints d))"

definition same_shape :: "data \<Rightarrow> data \<Rightarrow> bool" where
  "same_shape d d' =
     (kp_shape (keypoints d') = kp_shape (keypoints d)
      \<and> mask_shape (invalid d') = mask_shape (invalid d)
      \<and> mask_shape (peturbation d') = mask_shape (peturbation d))"

section \<open>Example records\<close>

text \<open>One frame of two valid 2D joints, and a generator whose every draw is one half.\<close>

definition d2 :: data where
  "d2 = \<lparr>keypoints = [[[1, 1], [2, 2]]], invalid = [[False, False]],
          peturbation = [[False, False]], force_apply = None\<rparr>"

definition g_half :: rng where
  "g_half = \<lparr>tape = (\<lambda>_. 1 / 2), drawn = 0\<rparr>"

text \<open>Three frames of two 2D joints; joint 0 is invalid in frame 1.\<close>

definition d3 :: data where
  "d3 = \<lparr>keypoints = [[[1, 1], [2, 2]], [[3, 3], [4, 4]], [[5, 5], [6, 6]]],
          invalid = [[False, False], [True, False], [False, False]],
          peturbation = [[False, False], [False, False], [False, False]], force_apply = None\<rparr>"

text \<open>Four frames of one 2D joint, which moves by 2 into frame 1 and back.\<close>

definition d4 :: data where
  "d4 = \<lparr>keypoints = [[[0, 0]], [[0, 2]], [[0, 0]], [[0, 0]]],
          invalid = [[False], [False], [False], [False]],
          peturbation = [[False], [False], [False], [False]], force_apply = None\<rparr>"

text \<open>Five frames of one 2D joint, valid in frames 0 and 3 only.\<close>

definition d5 :: data where
  "d5 = \<lparr>keypoints = [[[0, 0]], [[9, 9]], [[9, 9]], [[3, 6]], [[7, 7]]],
          invalid = [[False], [True], [True], [False], [True]],
          peturbation = [[False], [False], [False], [False], [False]], force_apply = None\<rparr>"

section \<open>The gate of a transform\<close>

lemma py_random_drawn: "drawn (snd (py_random g)) = Suc (drawn g)"
  by (simp add: py_random_def)

text \<open>
  C3. One call of a transform draws once from the generator, whatever the flags are.
  The effect runs, from the generator after that one draw, and its result is
  returned exactly when \<^verbatim>\<open>force_apply\<close> is true, or \<^verbatim>\<open>always_apply\<close> is true, or the
  drawn value is below \<^verbatim>\<open>p\<close>; otherwise the arrays of the record come back as
  they were and the generator has made exactly that one draw.
\<close>

theorem transform_gate:
  "call (Transform t always_apply p) d g =
     (if force_apply d = Some True \<or> always_apply \<or> fst (py_random g) < p
      then apply_transform t (d\<lparr>force_apply := None\<rparr>) (snd (py_random g))
      else Inr (d\<lparr>force_apply := None\<rparr>, snd (py_random g)))
   \<and> drawn (snd (py_random g)) = drawn g + 1
   \<and> keypoints (d\<lparr>force_apply := None\<rparr>) = keypoints d
   \<and> invalid (d\<lparr>force_apply := None\<rparr>) = invalid d
   \<and> peturbation (d\<lparr>force_apply := None\<rparr>) = peturbation d"
  by (auto simp: py_random_def split: prod.splits)

section \<open>Shapes are preserved\<close>

text \<open>
  Every array is updated in place in the source, so no call changes a shape.
  In the model the arrays are rebuilt; the lemmas below show, transform by
  transform and then by induction over the calls, that the rebuilt arrays
  have the shape of the old ones.
\<close>

lemma same_shape_refl: "same_shape d d"
  by (simp add: same_shape_def)

lemma same_shape_trans: "same_shape a b \<Longrightarrow> same_shape b c \<Longrightarrow> same_shape a c"
  by (simp add: same_shape_def)

lemma same_shape_force_l: "same_shape (d\<lparr>force_apply := x\<rparr>) d' = same_shape d d'"
  by (simp add: same_shape_def)

lemma same_shape_force_r: "same_shape d (d'\<lparr>force_apply := x\<rparr>) = same_shape d d'"
  by (simp add: same_shape_def)

lemma valid_data_force: "valid_data (d\<lparr>force_apply := x\<rparr>) = valid_data d"
  by (simp add: valid_data_def)

lemma map_length_kp_shape: "map length (kp_shape k) = map length k"
  by (simp add: kp_shape_def)

lemma same_shape_valid: "same_shape d d' \<Longrightarrow> valid_data d \<Longrightarrow> valid_data d'"
  unfolding same_shape_def valid_data_def shape_matches_def
  by (metis map_length_kp_shape)

lemma map_fold_update:
  "map f ys = map f xs \<Longrightarrow>
   (\<forall>(i, v) \<in> set zs. h i < length xs \<longrightarrow> f v = f (xs ! h i)) \<Longrightarrow>
   map f (fold (\<lambda>(i, v) ys. ys[h i := v]) zs ys) = map f xs"
proof (induction zs arbitrary: ys)
  case Nil
  then show ?case by simp
next
  case (Cons z zs)
  obtain i v where z: "z = (i, v)" by (cases z)
  have len: "length ys = length xs" using Cons.prems(1) by (metis length_map)
  have "map f (ys[h i := v]) = map f xs"
  proof (cases "h i < length xs")
    case True
    then have "f v = f (xs ! h i)" using Cons.prems(2) z by auto
    then show ?thesis using Cons.prems(1) True
      by (simp add: map_update) (metis list_update_id nth_map length_map)
  next
    case False
    then have "ys[h i := v] = ys" using len by (metis list_update_beyond not_less)
    then show ?thesis using Cons.prems(1) by metis
  qed
  then show ?case using Cons.IH [of "ys[h i := v]"] Cons.prems(2) z by simp
qed

lemma length_fold_update: "length (fold (\<lambda>(i, v) ys. ys[h i := v]) zs ys) = length ys"
  by (induction zs arbitrary: ys) auto

lemma length_put_cols: "length (put_cols row js vs) = length row"
  by (simp add: put_cols_def length_fold_update)

lemma ix_less: "index_ok n i \<Longrightarrow> ix n i < n"
  by (auto simp: index_ok_def ix_def py_index_def split: if_splits)


lemma map_nth_fun: "map (\<lambda>t. f (xs ! t)) [0..<length xs] = map f xs"
  by (rule nth_equalityI) auto

lemma uniform_list_nth:
  "uniform_list xs \<Longrightarrow> i < length xs \<Longrightarrow> j < length xs \<Longrightarrow> xs ! i = xs ! j"
  unfolding uniform_list_def list_all_length by blast

lemma shape_HorizontalFlip: "apply_HorizontalFlip a d = Inr d' \<Longrightarrow> same_shape d d'"
proof -
  assume h: "apply_HorizontalFlip a d = Inr d'"
  then have ne: "\<not> list_ex (list_ex (\<lambda>j. j = [])) (keypoints d)"
    by (auto simp: apply_HorizontalFlip_def split: if_splits)
  from h ne have d': "d' = d\<lparr>keypoints := map (map (\<lambda>j. (2 * a - hd j) # tl j)) (keypoints d)\<rparr>"
    by (auto simp: apply_HorizontalFlip_def split: if_splits)
  have len: "length ((2 * a - hd j) # tl j) = length j" if "j \<noteq> []" for j :: "real list"
    using that by (cases j) auto
  have "map (map (length \<circ> (\<lambda>j. (2 * a - hd j) # tl j))) (keypoints d) = map (map length) (keypoints d)"
  proof (intro map_cong refl)
    fix frame j assume "frame \<in> set (keypoints d)" "j \<in> set frame"
    then have "j \<noteq> []" using ne by (auto simp: list_ex_iff)
    then show "(length \<circ> (\<lambda>j. (2 * a - hd j) # tl j)) j = length j" using len by simp
  qed
  then have "kp_shape (map (map (\<lambda>j. (2 * a - hd j) # tl j)) (keypoints d)) = kp_shape (keypoints d)"
    by (simp add: kp_shape_def)
  then show ?thesis by (simp add: same_shape_def d')
qed

lemma shape_WholeOcclusion: "same_shape d (apply_WholeOcclusion d)"
  by (simp add: same_shape_def apply_WholeOcclusion_def mask_shape_def comp_def)

lemma shape_SpecificOcclusion: "apply_SpecificOcclusion js d = Inr d' \<Longrightarrow> same_shape d d'"
  by (auto simp: apply_SpecificOcclusion_def same_shape_def mask_shape_def comp_def length_put_cols
      split: if_splits)

lemma shape_RandomOcclusion: "apply_RandomOcclusion ch d g = Inr (d', g') \<Longrightarrow> same_shape d d'"
  by (auto simp: apply_RandomOcclusion_def split: sum.splits prod.splits dest: shape_SpecificOcclusion)

lemma length_clip_bb:
  "length kpt = 2 \<Longrightarrow> length dir = 2 \<Longrightarrow> length (clip_bb kpt bl tr dir) = 2"
  by (simp add: clip_bb_def Let_def)

lemma jitter_frame_cases:
  assumes "jitter_frame r ds kp V frame row g = Inr (frame', g')"
  shows "frame' = frame \<or>
    (\<exists>kid u dir. index_ok (length frame) kid \<and>
       frame' = frame[ix (length frame) kid :=
          clip_bb (map (\<lambda>(k, dr). k + u * dr) (zip (frame ! ix (length frame) kid) dir))
             (bottom_left_bb frame row) (top_right_bb frame row) dir] \<and> length dir = 2)"
proof -
  define X where "X = (case kp of Some k \<Rightarrow> if k \<noteq> 0 then Inr (k, g) else randint 0 (int V) g
            | None \<Rightarrow> randint 0 (int V) g)"
  from assms obtain kid g1 where X: "X = Inr (kid, g1)"
    unfolding jitter_frame_def X_def [symmetric] by (cases X) auto
  from assms X have ok: "index_ok (length row) kid" "index_ok (length frame) kid"
    unfolding jitter_frame_def X_def [symmetric] by (auto split: if_splits)
  show ?thesis
  proof (cases "row ! ix (length row) kid")
    case True
    then show ?thesis using assms X ok
      unfolding jitter_frame_def X_def [symmetric] by simp
  next
    case False
    obtain radian g2 where u1: "uniform (fst r) (snd r) g1 = (radian, g2)" by (cases "uniform (fst r) (snd r) g1")
    obtain amount g3 where u2: "uniform (fst ds) (snd ds) g2 = (amount, g3)" by (cases "uniform (fst ds) (snd ds) g2")
    have "frame' = frame[ix (length frame) kid :=
          clip_bb (map (\<lambda>(k, dr). k + amount * dr) (zip (frame ! ix (length frame) kid) [cos radian, sin radian]))
             (bottom_left_bb frame row) (top_right_bb frame row) [cos radian, sin radian]]"
      using assms X ok False u1 u2
      unfolding jitter_frame_def X_def [symmetric] by (simp add: Let_def)
    then show ?thesis using ok by (intro disjI2 exI [of _ kid] exI [of _ amount] exI [of _ "[cos radian, sin radian]"]) simp
  qed
qed

lemma jitter_frame_shape:
  assumes "jitter_frame r ds kp V frame row g = Inr (frame', g')"
    and "list_all (\<lambda>j. length j = 2) frame"
  shows "map length frame' = map length frame"
proof -
  have upd: "map length (frame[i := v]) = map length frame" if "length v = 2" for i v
  proof (cases "i < length frame")
    case True
    then have "length (frame ! i) = 2" using assms(2) by (simp add: list_all_length)
    then show ?thesis using that True by (simp add: map_update) (metis list_update_id nth_map)
  next
    case False
    then show ?thesis by (metis list_update_beyond not_less)
  qed
  from jitter_frame_cases [OF assms(1)] show ?thesis
  proof
    assume "frame' = frame" then show ?thesis by simp
  next
    assume "\<exists>kid u dir. index_ok (length frame) kid \<and>
       frame' = frame[ix (length frame) kid :=
          clip_bb (map (\<lambda>(k, dr). k + u * dr) (zip (frame ! ix (length frame) kid) dir))
             (bottom_left_bb frame row) (top_right_bb frame row) dir] \<and> length dir = 2"
    then obtain kid u dir where ok: "index_ok (length frame) kid" and dir: "length dir = 2"
      and f: "frame' = frame[ix (length frame) kid :=
          clip_bb (map (\<lambda>(k, dr). k + u * dr) (zip (frame ! ix (length frame) kid) dir))
             (bottom_left_bb frame row) (top_right_bb frame row) dir]" by blast
    have "length (frame ! ix (length frame) kid) = 2"
      using assms(2) ix_less [OF ok] by (simp add: list_all_length)
    then have "length (clip_bb (map (\<lambda>(k, dr). k + u * dr) (zip (frame ! ix (length frame) kid) dir))
             (bottom_left_bb frame row) (top_right_bb frame row) dir) = 2"
      using dir by (intro length_clip_bb) simp_all
    then show ?thesis unfolding f by (rule upd)
  qed
qed

lemma jitter_frames_shape:
  "jitter_frames r ds kp V zs g = Inr (res, g') \<Longrightarrow>
   list_all (\<lambda>z. list_all (\<lambda>j. length j = 2) (fst z)) zs \<Longrightarrow>
   map (map length) res = map (map length \<circ> fst) zs"
proof (induction zs arbitrary: res g)
  case Nil
  then show ?case by simp
next
  case (Cons z zs)
  obtain frame row where z: "z = (frame, row)" by (cases z)
  from Cons.prems(1) obtain frame' g1 rest' where
    a: "jitter_frame r ds kp V frame row g = Inr (frame', g1)" and
    b: "jitter_frames r ds kp V zs g1 = Inr (rest', g')" and
    c: "res = frame' # rest'"
    by (auto simp: z split: sum.splits prod.splits)
  show ?case using jitter_frame_shape [OF a] Cons.IH [OF b] Cons.prems(2) by (simp add: z c)
qed

lemma shape_Jittering: "apply_Jittering r ds kp d g = Inr (d', g') \<Longrightarrow> same_shape d d'"
proof -
  assume h: "apply_Jittering r ds kp d g = Inr (d', g')"
  then have two: "list_all (list_all (\<lambda>j. length j = 2)) (keypoints d)"
    and sm: "shape_matches (invalid d) (keypoints d)"
    by (auto simp: apply_Jittering_def split: if_splits)
  from h two sm obtain res where
    r: "jitter_frames r ds kp (num_joints (keypoints d)) (zip (keypoints d) (invalid d)) g = Inr (res, g')"
    and d': "d' = d\<lparr>keypoints := res\<rparr>"
    by (auto simp: apply_Jittering_def split: sum.splits prod.splits)
  have len: "length (invalid d) = length (keypoints d)"
    using sm by (metis shape_matches_def mask_shape_def length_map)
  have "list_all (\<lambda>z. list_all (\<lambda>j. length j = 2) (fst z)) (zip (keypoints d) (invalid d))"
    using two by (auto simp: list_all_iff dest: set_zip_leftD)
  from jitter_frames_shape [OF r this]
  have "map (map length) res = map (map length) (map fst (zip (keypoints d) (invalid d)))" by simp
  also have "map fst (zip (keypoints d) (invalid d)) = keypoints d" using len by simp
  finally show ?thesis by (simp add: same_shape_def d' kp_shape_def)
qed

lemma put_cols_map_length:
  assumes "\<forall>(j, v) \<in> set (zip js vs). length v = length (row ! ix (length row) j)"
  shows "map length (put_cols row js vs) = map length row"
  unfolding put_cols_def
  by (rule map_fold_update [OF refl]) (use assms in auto)

lemma length_vec_add: "length (vec_add a b) = length a"
  by (simp add: vec_add_def)

lemma shape_MovePerturbation:
  assumes "apply_MovePerturbation variance joints d g = Inr (d', g')"
  shows "same_shape d d'"
proof -
  define js where "js = (case joints of None \<Rightarrow> [] | Some l \<Rightarrow> l)"
  define kp where "kp = keypoints d"
  show ?thesis
  proof (cases "js = []")
    case True
    obtain noise g1 where n: "normal 0 variance (length kp, num_joints kp, num_coords kp) g = (noise, g1)"
      by (cases "normal 0 variance (length kp, num_joints kp, num_coords kp) g")
    from assms True n have d': "d' = d\<lparr>keypoints :=
        map (\<lambda>t. map (\<lambda>v. if invalid d ! t ! v then kp ! t ! v else vec_add (kp ! t ! v) (noise ! t ! v))
              [0..<length (kp ! t)]) [0..<length kp]\<rparr>"
      unfolding apply_MovePerturbation_def js_def [symmetric] kp_def [symmetric] Let_def
      by (auto split: if_splits)
    have "map length (map (\<lambda>v. if invalid d ! t ! v then kp ! t ! v else vec_add (kp ! t ! v) (noise ! t ! v))
              [0..<length (kp ! t)]) = map length (kp ! t)" for t
      by (rule nth_equalityI) (auto simp: length_vec_add)
    then have "kp_shape (keypoints d') = map (\<lambda>t. map length (kp ! t)) [0..<length kp]"
      by (simp add: d' kp_shape_def comp_def)
    also have "\<dots> = kp_shape kp" by (simp add: map_nth_fun kp_shape_def)
    finally show ?thesis by (simp add: same_shape_def d' kp_def)
  next
    case False
    obtain noise g1 where n: "normal 0 variance (length kp, length js, num_coords kp) g = (noise, g1)"
      by (cases "normal 0 variance (length kp, length js, num_coords kp) g")
    define vs where "vs = (\<lambda>t. map (\<lambda>m. if take_cols (invalid d ! t) js ! m
                                       then take_cols (kp ! t) js ! m
                                       else vec_add (take_cols (kp ! t) js ! m) (noise ! t ! m))
                               [0..<length js])"
    from assms False n have d': "d' = d\<lparr>keypoints := map (\<lambda>t. put_cols (kp ! t) js (vs t)) [0..<length kp]\<rparr>"
      unfolding apply_MovePerturbation_def js_def [symmetric] kp_def [symmetric] Let_def vs_def
      by (auto split: if_splits)
    have "map length (put_cols (kp ! t) js (vs t)) = map length (kp ! t)" for t
    proof (rule put_cols_map_length, clarify)
      fix j v assume "(j, v) \<in> set (zip js (vs t))"
      then obtain m where m: "m < length js" "j = js ! m" "v = vs t ! m"
        by (auto simp: in_set_zip)
      then show "length v = length (kp ! t ! ix (length (kp ! t)) j)"
        by (simp add: vs_def take_cols_def length_vec_add)
    qed
    then have "kp_shape (keypoints d') = map (\<lambda>t. map length (kp ! t)) [0..<length kp]"
      by (simp add: d' kp_shape_def comp_def)
    also have "\<dots> = kp_shape kp" by (simp add: map_nth_fun kp_shape_def)
    finally show ?thesis by (simp add: same_shape_def d' kp_def)
  qed
qed

lemma swap_cols_shape:
  assumes "swap_cols p q k = Inr k'" and "list_all uniform_list (kp_shape k)"
  shows "kp_shape k' = kp_shape k"
proof -
  from assms(1) have ok: "cols_ok k [p, q]"
    and k': "k' = map (\<lambda>frame. (frame[ix (length frame) p := frame ! ix (length frame) q])
                               [ix (length frame) q := frame ! ix (length frame) p]) k"
    by (auto simp: swap_cols_def split: if_splits)
  have "map length ((frame[ix (length frame) p := frame ! ix (length frame) q])
                               [ix (length frame) q := frame ! ix (length frame) p]) = map length frame"
    if "frame \<in> set k" for frame
  proof -
    from that ok have P: "ix (length frame) p < length frame" and Q: "ix (length frame) q < length frame"
      by (auto simp: cols_ok_def list_all_iff ix_less)
    from that assms(2) have "uniform_list (map length frame)"
      by (auto simp: kp_shape_def list_all_iff)
    from uniform_list_nth [OF this, of "ix (length frame) p" "ix (length frame) q"] P Q
    have eq: "length (frame ! ix (length frame) p) = length (frame ! ix (length frame) q)" by simp
    show ?thesis
      by (rule nth_equalityI) (use eq P Q in \<open>auto simp: nth_list_update\<close>)
  qed
  then show ?thesis by (simp add: k' kp_shape_def)
qed

lemma mirror_shape:
  "mirror ps k = Inr k' \<Longrightarrow> list_all uniform_list (kp_shape k) \<Longrightarrow> kp_shape k' = kp_shape k"
proof (induction ps arbitrary: k)
  case Nil
  then show ?case by simp
next
  case (Cons a ps)
  obtain p q where a: "a = (p, q)" by (cases a)
  from Cons.prems(1) obtain k1 where s: "swap_cols p q k = Inr k1" and m: "mirror ps k1 = Inr k'"
    by (auto simp: a split: sum.splits)
  have e: "kp_shape k1 = kp_shape k" by (rule swap_cols_shape [OF s Cons.prems(2)])
  with Cons.IH [OF m] Cons.prems(2) show ?case by simp
qed

lemma shape_MirrorPerturbation:
  "apply_MirrorPerturbation ps d = Inr d' \<Longrightarrow> valid_data d \<Longrightarrow> same_shape d d'"
  by (auto simp: apply_MirrorPerturbation_def same_shape_def valid_data_def split: sum.splits
      dest: mirror_shape)

lemma shape_SwapPerturbation:
  "apply_SwapPerturbation d g = Inr (d', g') \<Longrightarrow> valid_data d \<Longrightarrow> same_shape d d'"
  by (auto simp: apply_SwapPerturbation_def same_shape_def valid_data_def
      split: option.splits sum.splits prod.splits dest: swap_cols_shape)

lemma length_lerp: "length (lerp x0 y0 x1 y1 x) = min (length y0) (length y1)"
  by (simp add: lerp_def)

lemma length_interp1d:
  "2 \<le> length ps \<Longrightarrow> \<forall>(x, y) \<in> set ps. length y = C \<Longrightarrow> length (interp1d ps x) = C"
proof (induction ps x rule: interp1d.induct)
  case (1 x0 y0 x1 y1 ps x)
  show ?case
  proof (cases "x \<le> x1 \<or> ps = []")
    case True
    then show ?thesis using "1.prems" by (auto simp: length_lerp)
  next
    case False
    then have "2 \<le> length ((x1, y1) # ps)" by (cases ps) auto
    with "1.IH" False "1.prems"(2) show ?thesis by auto
  qed
qed auto

lemma valid_frames:
  assumes "valid_data d" "t < length (keypoints d)"
  shows "length (keypoints d ! t) = num_joints (keypoints d)"
proof -
  from assms(2) obtain f fs where k: "keypoints d = f # fs" by (cases "keypoints d") auto
  from assms(1) have u: "uniform_list (kp_shape (keypoints d))" by (simp add: valid_data_def)
  have "kp_shape (keypoints d) ! t = kp_shape (keypoints d) ! 0"
    by (rule uniform_list_nth [OF u]) (use assms(2) in \<open>auto simp: kp_shape_def\<close>)
  moreover have "0 < length (keypoints d)" using assms(2) by auto
  ultimately have "map length (keypoints d ! t) = map length (keypoints d ! 0)"
    using assms(2) by (simp add: kp_shape_def)
  then have "length (keypoints d ! t) = length (keypoints d ! 0)" by (metis length_map)
  then show ?thesis by (simp add: k num_joints_def)
qed

lemma valid_joints_length:
  assumes "valid_data d" "t < length (keypoints d)" "t' < length (keypoints d)"
    and "k < num_joints (keypoints d)"
  shows "length (keypoints d ! t ! k) = length (keypoints d ! t' ! k)"
proof -
  from assms(1) have u: "uniform_list (kp_shape (keypoints d))" by (simp add: valid_data_def)
  have "kp_shape (keypoints d) ! t = kp_shape (keypoints d) ! t'"
    by (rule uniform_list_nth [OF u]) (use assms in \<open>auto simp: kp_shape_def\<close>)
  then have "map length (keypoints d ! t) = map length (keypoints d ! t')"
    using assms by (simp add: kp_shape_def)
  then have "map length (keypoints d ! t) ! k = map length (keypoints d ! t') ! k" by simp
  then show ?thesis using assms(4) valid_frames [OF assms(1)] assms(2,3) by simp
qed

lemma interpolate_joint_shape:
  assumes v: "valid_data d" and k: "k < num_joints (keypoints d)"
  shows "same_shape d (interpolate_joint k d)"
proof -
  define kp where "kp = column (keypoints d) k"
  define msk where "msk = column (invalid d) k"
  show ?thesis
  proof (cases "length (valid_ids msk) < 2")
    case True
    then have "interpolate_joint k d = d"
      unfolding interpolate_joint_def kp_def [symmetric] msk_def [symmetric] Let_def
      by simp
    then show ?thesis by (simp add: same_shape_def)
  next
    case False
    define f where "f = interp1d (map (\<lambda>t. (t, kp ! t)) (valid_ids msk))"
    define m where "m = interpolate_map msk"
    from False have d': "interpolate_joint k d =
        d\<lparr>keypoints := map (\<lambda>t. if m ! t then (keypoints d ! t)[k := f t] else keypoints d ! t)
                                    [0..<length (keypoints d)],
          invalid := map (\<lambda>t. if m ! t then (invalid d ! t)[k := False] else invalid d ! t)
                                    [0..<length (invalid d)]\<rparr>"
      unfolding interpolate_joint_def kp_def [symmetric] msk_def [symmetric] Let_def
        f_def m_def by simp
    have T: "length (invalid d) = length (keypoints d)"
      using v by (metis valid_data_def shape_matches_def mask_shape_def length_map)
    have lenf: "length (f x) = length (keypoints d ! t ! k)" if "t < length (keypoints d)" for x t
      unfolding f_def
    proof (rule length_interp1d)
      show "2 \<le> length (map (\<lambda>t. (t, kp ! t)) (valid_ids msk))" using False by simp
      show "\<forall>(x, y)\<in>set (map (\<lambda>t. (t, kp ! t)) (valid_ids msk)). length y = length (keypoints d ! t ! k)"
      proof clarify
        fix a y assume "(a, y) \<in> set (map (\<lambda>t. (t, kp ! t)) (valid_ids msk))"
        then have a: "a < length msk" and y: "y = kp ! a" by (auto simp: valid_ids_def)
        from a have a': "a < length (keypoints d)" by (simp add: msk_def column_def T)
        then have "y = keypoints d ! a ! k" by (simp add: y kp_def column_def)
        then show "length y = length (keypoints d ! t ! k)"
          using valid_joints_length [OF v a' that k] by simp
      qed
    qed
    have "map length (if m ! t then (keypoints d ! t)[k := f t] else keypoints d ! t)
          = map length (keypoints d ! t)" if "t < length (keypoints d)" for t
    proof (rule nth_equalityI)
      show "length (map length (if m ! t then (keypoints d ! t)[k := f t] else keypoints d ! t))
          = length (map length (keypoints d ! t))" by simp
      fix i assume "i < length (map length (if m ! t then (keypoints d ! t)[k := f t] else keypoints d ! t))"
      then have i: "i < length (keypoints d ! t)" by (simp split: if_splits)
      have "length ((keypoints d ! t)[k := f t] ! i) = length (keypoints d ! t ! i)"
        by (cases "i = k") (use i lenf [OF that, of t] in auto)
      then show "map length (if m ! t then (keypoints d ! t)[k := f t] else keypoints d ! t) ! i
          = map length (keypoints d ! t) ! i" using i by simp
    qed
    then have "kp_shape (keypoints (interpolate_joint k d)) = map (\<lambda>t. map length (keypoints d ! t)) [0..<length (keypoints d)]"
      by (simp add: d' kp_shape_def comp_def)
    also have "\<dots> = kp_shape (keypoints d)" by (simp add: map_nth_fun kp_shape_def)
    finally have A: "kp_shape (keypoints (interpolate_joint k d)) = kp_shape (keypoints d)" .
    have "mask_shape (invalid (interpolate_joint k d)) = map (\<lambda>t. length (invalid d ! t)) [0..<length (invalid d)]"
      by (simp add: d' mask_shape_def comp_def)
    also have "\<dots> = mask_shape (invalid d)" by (simp add: map_nth_fun mask_shape_def)
    finally have B: "mask_shape (invalid (interpolate_joint k d)) = mask_shape (invalid d)" .
    show ?thesis using A B by (simp add: same_shape_def d')
  qed
qed

lemma same_shape_num_joints: "same_shape d d' \<Longrightarrow> num_joints (keypoints d') = num_joints (keypoints d)"
  by (cases "keypoints d"; cases "keypoints d'") (auto simp: same_shape_def kp_shape_def num_joints_def dest: map_eq_imp_length_eq)

lemma fold_interpolate_shape:
  "valid_data d \<Longrightarrow> \<forall>k \<in> set ks. k < num_joints (keypoints d) \<Longrightarrow>
   same_shape d (fold interpolate_joint ks d)"
proof (induction ks arbitrary: d)
  case Nil
  then show ?case by (simp add: same_shape_refl)
next
  case (Cons k ks)
  have s: "same_shape d (interpolate_joint k d)"
    by (rule interpolate_joint_shape) (use Cons.prems in auto)
  have "same_shape (interpolate_joint k d) (fold interpolate_joint ks (interpolate_joint k d))"
    by (rule Cons.IH) (use s Cons.prems same_shape_valid same_shape_num_joints in auto)
  with s show ?case by (auto intro: same_shape_trans)
qed

lemma shape_InterpolateOcclusions:
  "apply_InterpolateOcclusions d = Inr d' \<Longrightarrow> valid_data d \<Longrightarrow> same_shape d d'"
  by (auto simp: apply_InterpolateOcclusions_def split: if_splits intro: fold_interpolate_shape)

lemma apply_transform_shape:
  "apply_transform t d g = Inr (d', g') \<Longrightarrow> valid_data d \<Longrightarrow> same_shape d d'"
proof (cases t)
  case (HorizontalFlip a)
  then show "apply_transform t d g = Inr (d', g') \<Longrightarrow> same_shape d d'"
    by (auto split: sum.splits dest: shape_HorizontalFlip)
next
  case (RandomOcclusion c)
  then show "apply_transform t d g = Inr (d', g') \<Longrightarrow> same_shape d d'"
    by (auto dest: shape_RandomOcclusion)
next
  case WholeOcclusion
  then show "apply_transform t d g = Inr (d', g') \<Longrightarrow> same_shape d d'"
    by (auto simp: shape_WholeOcclusion)
next
  case (SpecificOcclusion js)
  then show "apply_transform t d g = Inr (d', g') \<Longrightarrow> same_shape d d'"
    by (auto split: sum.splits dest: shape_SpecificOcclusion)
next
  case InterpolateOcclusions
  then show "apply_transform t d g = Inr (d', g') \<Longrightarrow> valid_data d \<Longrightarrow> same_shape d d'"
    by (auto split: sum.splits dest: shape_InterpolateOcclusions)
next
  case (Jittering r ds kp)
  then show "apply_transform t d g = Inr (d', g') \<Longrightarrow> same_shape d d'"
    by (auto dest: shape_Jittering)
next
  case (MovePerturbation var js)
  then show "apply_transform t d g = Inr (d', g') \<Longrightarrow> same_shape d d'"
    by (auto dest: shape_MovePerturbation)
next
  case SwapPerturbation
  then show "apply_transform t d g = Inr (d', g') \<Longrightarrow> valid_data d \<Longrightarrow> same_shape d d'"
    by (auto dest: shape_SwapPerturbation)
next
  case (MirrorPerturbation ps)
  then show "apply_transform t d g = Inr (d', g') \<Longrightarrow> valid_data d \<Longrightarrow> same_shape d d'"
    by (auto split: sum.splits dest: shape_MirrorPerturbation)
qed

lemma uniform_list_subset: "uniform_list xs \<Longrightarrow> set ys \<subseteq> set xs \<Longrightarrow> uniform_list ys"
  unfolding uniform_list_def list_all_iff by blast

lemma take_rows_Inr:
  "take_rows xs ids = Inr ys \<Longrightarrow>
   list_all (index_ok (length xs)) ids \<and> ys = map (\<lambda>i. xs ! ix (length xs) i) ids"
  by (auto simp: take_rows_def split: if_splits)

lemma select_data_valid:
  assumes "select_data d ids = Inr sd" "valid_data d"
  shows "valid_data sd"
proof -
  from assms(1) obtain k m pm where
    k: "take_rows (keypoints d) ids = Inr k" and m: "take_rows (invalid d) ids = Inr m"
    and pm: "take_rows (peturbation d) ids = Inr pm"
    and sd: "sd = \<lparr>keypoints = k, invalid = m, peturbation = pm, force_apply = None\<rparr>"
    by (auto simp: select_data_def split: sum.splits)
  note K = take_rows_Inr [OF k] and M = take_rows_Inr [OF m] and PM = take_rows_Inr [OF pm]
  have T1: "length (invalid d) = length (keypoints d)"
    using assms(2) by (metis valid_data_def shape_matches_def mask_shape_def length_map)
  have T2: "length (peturbation d) = length (keypoints d)"
    using assms(2) by (metis valid_data_def shape_matches_def mask_shape_def length_map)
  have in_range: "ix (length (keypoints d)) i < length (keypoints d)" if "i \<in> set ids" for i
    using K that by (auto simp: list_all_iff ix_less)
  have sub: "set (kp_shape k) \<subseteq> set (kp_shape (keypoints d))"
    using K in_range by (auto simp: kp_shape_def)
  have u1: "uniform_list (kp_shape k)"
    using assms(2) sub by (auto simp: valid_data_def intro: uniform_list_subset)
  have u2: "list_all uniform_list (kp_shape k)"
    using assms(2) sub by (auto simp: valid_data_def list_all_iff)
  have "length (invalid d ! j) = length (keypoints d ! j)" if "j < length (keypoints d)" for j
  proof -
    from assms(2) have "mask_shape (invalid d) ! j = map length (keypoints d) ! j"
      by (simp add: valid_data_def shape_matches_def)
    then show ?thesis using that T1 by (simp add: mask_shape_def)
  qed
  then have s1: "shape_matches m k"
    using K M in_range by (auto simp: shape_matches_def mask_shape_def T1)
  have "length (peturbation d ! j) = length (keypoints d ! j)" if "j < length (keypoints d)" for j
  proof -
    from assms(2) have "mask_shape (peturbation d) ! j = map length (keypoints d) ! j"
      by (simp add: valid_data_def shape_matches_def)
    then show ?thesis using that T2 by (simp add: mask_shape_def)
  qed
  then have s2: "shape_matches pm k"
    using K PM in_range by (auto simp: shape_matches_def mask_shape_def T2)
  show ?thesis using u1 u2 s1 s2 by (simp add: valid_data_def sd)
qed

lemma put_rows_shape:
  assumes "put_rows xs ids vs = Inr ys" and "map f vs = map (\<lambda>i. f (xs ! ix (length xs) i)) ids"
  shows "map f ys = map f xs"
proof -
  from assms(1) have ys: "ys = fold (\<lambda>(i, v) ys. ys[ix (length xs) i := v]) (zip ids vs) xs"
    and len: "length vs = length ids"
    by (auto simp: put_rows_def split: if_splits)
  show ?thesis unfolding ys
  proof (rule map_fold_update [OF refl], clarify)
    fix i v assume "(i, v) \<in> set (zip ids vs)"
    then obtain n where n: "n < length ids" "i = ids ! n" "v = vs ! n" using len
      by (auto simp: in_set_zip)
    have "map f vs ! n = map (\<lambda>i. f (xs ! ix (length xs) i)) ids ! n" using assms(2) by simp
    then show "f v = f (xs ! ix (length xs) i)" using n len by simp
  qed
qed

lemma write_back_shape:
  assumes "write_back d ids sd sd' = Inr d'" "select_data d0 ids = Inr sd"
    and "keypoints d0 = keypoints d" "invalid d0 = invalid d" "peturbation d0 = peturbation d"
  shows "same_shape d d'"
proof -
  from assms(2) obtain k m pm where
    k: "take_rows (keypoints d) ids = Inr k" and m: "take_rows (invalid d) ids = Inr m"
    and pm: "take_rows (peturbation d) ids = Inr pm"
    and sd: "sd = \<lparr>keypoints = k, invalid = m, peturbation = pm, force_apply = None\<rparr>"
    by (auto simp: select_data_def assms(3-5) split: sum.splits)
  note K = take_rows_Inr [OF k] and M = take_rows_Inr [OF m] and PM = take_rows_Inr [OF pm]
  from assms(1) obtain k' m' pm' where
    g1: "kp_shape (keypoints sd') = kp_shape (keypoints sd)"
    and g2: "mask_shape (invalid sd') = mask_shape (invalid sd)"
    and g3: "mask_shape (peturbation sd') = mask_shape (peturbation sd)"
    and k': "put_rows (keypoints d) ids (keypoints sd') = Inr k'"
    and m': "put_rows (invalid d) ids (invalid sd') = Inr m'"
    and pm': "put_rows (peturbation d) ids (peturbation sd') = Inr pm'"
    and d': "d' = d\<lparr>keypoints := k', invalid := m', peturbation := pm'\<rparr>"
    by (auto simp: write_back_def split: if_splits sum.splits)
  have A: "map (map length) k' = map (map length) (keypoints d)"
    by (rule put_rows_shape [OF k']) (use g1 K in \<open>simp add: kp_shape_def sd\<close>)
  have B: "map length m' = map length (invalid d)"
    by (rule put_rows_shape [OF m']) (use g2 M in \<open>simp add: mask_shape_def sd\<close>)
  have C: "map length pm' = map length (peturbation d)"
    by (rule put_rows_shape [OF pm']) (use g3 PM in \<open>simp add: mask_shape_def sd\<close>)
  show ?thesis using A B C by (simp add: same_shape_def d' kp_shape_def mask_shape_def)
qed

lemma kp_shape_zero_invalid: "kp_shape (zero_invalid k m) = kp_shape k"
proof -
  have "map length (map (\<lambda>v. if m ! t ! v then map (\<lambda>_. 0) (k ! t ! v) else k ! t ! v) [0..<length (k ! t)])
      = map length (k ! t)" for t
    by (rule nth_equalityI) auto
  then have "kp_shape (zero_invalid k m) = map (\<lambda>t. map length (k ! t)) [0..<length k]"
    by (simp add: zero_invalid_def kp_shape_def comp_def)
  also have "\<dots> = kp_shape k" by (simp add: map_nth_fun kp_shape_def)
  finally show ?thesis .
qed

lemma shape_set_invalid_to_zero: "set_invalid_to_zero d = Inr d' \<Longrightarrow> same_shape d d'"
  by (auto simp: set_invalid_to_zero_def same_shape_def kp_shape_zero_invalid split: if_splits)

lemma check_args_full:
  "check_args (Some (keypoints d)) (Some (invalid d)) (Some (peturbation d)) = Inr d0 \<Longrightarrow>
   d0 = d\<lparr>force_apply := None\<rparr>"
  by (cases d) (auto simp: check_args_def split: if_splits)

lemma call_shape_all:
  shows "\<forall>d' g'. valid_data d \<longrightarrow> call t d g = Inr (d', g') \<longrightarrow> same_shape d d'"
    and "\<forall>d' g'. valid_data da \<longrightarrow> call_each ts da ga = Inr (d', g') \<longrightarrow> same_shape da d'"
    and "\<forall>d' g'. valid_data db \<longrightarrow> call_forced ts' i db gb = Inr (d', g') \<longrightarrow> same_shape db d'"
    and "\<forall>d' g'. valid_data dc \<longrightarrow> call_picked ts'' js dc gc = Inr (d', g') \<longrightarrow> same_shape dc d'"
proof (induct t d g and ts da ga and ts' i db gb and ts'' js dc gc
    rule: call_call_each_call_forced_call_picked.induct)
  case (1 t always_apply p d g)
  show ?case
  proof (intro allI impI)
    fix d' g' assume v: "valid_data d" and c: "call (Transform t always_apply p) d g = Inr (d', g')"
    obtain u g1 where r: "py_random g = (u, g1)" by (cases "py_random g")
    show "same_shape d d'"
    proof (cases "u < p \<or> always_apply \<or> force_apply d = Some True")
      case True
      with c r have "apply_transform t (d\<lparr>force_apply := None\<rparr>) g1 = Inr (d', g')" by simp
      from apply_transform_shape [OF this] v show ?thesis
        by (simp add: valid_data_force same_shape_force_l)
    next
      case False
      with c r have "d' = d\<lparr>force_apply := None\<rparr>" by auto
      then show ?thesis by (simp add: same_shape_def)
    qed
  qed
next
  case (2 s ts p d g)
  show ?case
  proof (intro allI impI)
    fix d' g' assume v: "valid_data d" and c: "call (Select s ts p) d g = Inr (d', g')"
    obtain run g1 where r: "gate (force_apply d = Some True) p g = (run, g1)"
      by (cases "gate (force_apply d = Some True) p g")
    show "same_shape d d'"
    proof (cases run)
      case False
      with c r have "d' = d\<lparr>force_apply := None\<rparr>" by auto
      then show ?thesis by (simp add: same_shape_def)
    next
      case True
      with c r obtain ids g2 sd sd' g3 where
        "get_selection s (d\<lparr>force_apply := None\<rparr>) g1 = Inr (ids, g2)"
        and sd: "select_data d ids = Inr sd"
        and "call_each ts sd g2 = Inr (sd', g3)"
        and wb: "write_back (d\<lparr>force_apply := None\<rparr>) ids sd sd' = Inr d'"
        by (auto split: sum.splits prod.splits)
      from write_back_shape [OF wb sd] show ?thesis by (simp add: same_shape_force_l)
    qed
  qed
next
  case (3 ts p set_zero d g)
  show ?case
  proof (intro allI impI)
    fix d' g' assume v: "valid_data d" and c: "call (Compose ts p set_zero) d g = Inr (d', g')"
    from c obtain d0 where ca: "check_args (Some (keypoints d)) (Some (invalid d)) (Some (peturbation d)) = Inr d0"
      by (auto split: sum.splits)
    note d0 = check_args_full [OF ca]
    from c ca obtain d1 g1 where ce: "call_each ts d0 g = Inr (d1, g1)"
      by (auto split: sum.splits prod.splits)
    have v0: "valid_data d0" using v by (simp add: d0 valid_data_force)
    from 3 [OF ca] v0 ce have s1: "same_shape d0 d1" by blast
    have "same_shape d1 d'"
    proof (cases set_zero)
      case True
      with c ca ce have "set_invalid_to_zero d1 = Inr d'" by (auto split: sum.splits)
      then show ?thesis by (rule shape_set_invalid_to_zero)
    next
      case False
      with c ca ce have "d' = d1" by auto
      then show ?thesis by (simp add: same_shape_refl)
    qed
    with s1 have "same_shape d0 d'" by (rule same_shape_trans)
    then show "same_shape d d'" by (simp add: d0 same_shape_force_l)
  qed
next
  case (4 ts p transforms_ps d g)
  show ?case
  proof (intro allI impI)
    fix d' g' assume v: "valid_data d" and c: "call (OneOf ts p transforms_ps) d g = Inr (d', g')"
    obtain run g1 where r: "gate (force_apply d = Some True) p g = (run, g1)"
      by (cases "gate (force_apply d = Some True) p g")
    show "same_shape d d'"
    proof (cases "transforms_ps \<noteq> [] \<and> run")
      case False
      with c r have "d' = d\<lparr>force_apply := None\<rparr>" by (auto split: if_splits)
      then show ?thesis by (simp add: same_shape_def)
    next
      case True
      with c r obtain idx g2 where ch: "choice (length ts) transforms_ps g1 = Inr (idx, g2)"
        and cf: "call_forced ts idx (d\<lparr>force_apply := None\<rparr>) g2 = Inr (d', g')"
        by (auto split: sum.splits prod.splits)
      from 4 [OF _ r [symmetric] _ ch refl] True v cf show ?thesis
        by (simp add: valid_data_force same_shape_force_l)
    qed
  qed
next
  case (5 ts p n replace transforms_ps d g)
  show ?case
  proof (intro allI impI)
    fix d' g' assume v: "valid_data d" and c: "call (SomeOf ts p n replace transforms_ps) d g = Inr (d', g')"
    obtain run g1 where r: "gate (force_apply d = Some True) p g = (run, g1)"
      by (cases "gate (force_apply d = Some True) p g")
    show "same_shape d d'"
    proof (cases "transforms_ps \<noteq> [] \<and> run")
      case False
      with c r have "d' = d\<lparr>force_apply := None\<rparr>" by (auto split: if_splits)
      then show ?thesis by (simp add: same_shape_def)
    next
      case True
      with c r obtain idx g2 where ch: "choice_size (length ts) n replace (Some transforms_ps) g1 = Inr (idx, g2)"
        and cf: "call_picked ts idx (d\<lparr>force_apply := None\<rparr>) g2 = Inr (d', g')"
        by (auto split: sum.splits prod.splits)
      from 5 [OF _ r [symmetric] _ ch refl] True v cf show ?thesis
        by (simp add: valid_data_force same_shape_force_l)
    qed
  qed
next
  case (6 ts p d g)
  show ?case
  proof (intro allI impI)
    fix d' g' assume v: "valid_data d" and c: "call (OneOrOther ts p) d g = Inr (d', g')"
    obtain u g1 where r: "py_random g = (u, g1)" by (cases "py_random g")
    show "same_shape d d'"
    proof (cases "u < p")
      case True
      with c r have cf: "call_forced ts 0 (d\<lparr>force_apply := None\<rparr>) g1 = Inr (d', g')" by simp
      from 6(1) [OF r [symmetric] True] v cf show ?thesis
        by (simp add: valid_data_force same_shape_force_l)
    next
      case False
      with c r have cf: "call_forced ts (length ts - 1) (d\<lparr>force_apply := None\<rparr>) g1 = Inr (d', g')" by simp
      from 6(2) [OF r [symmetric] False] v cf show ?thesis
        by (simp add: valid_data_force same_shape_force_l)
    qed
  qed
next
  case (7 ts p d g)
  show ?case
  proof (intro allI impI)
    fix d' g' assume v: "valid_data d" and c: "call (Sequential ts p) d g = Inr (d', g')"
    obtain u g1 where r: "py_random g = (u, g1)" by (cases "py_random g")
    show "same_shape d d'"
    proof (cases "u < p")
      case True
      with c r have "call_each ts d g1 = Inr (d', g')" by simp
      with 7 [OF r [symmetric] True] v show ?thesis by blast
    next
      case False
      with c r have "d' = d" by simp
      then show ?thesis by (simp add: same_shape_refl)
    qed
  qed
next
  case (8 p d g)
  show ?case by (simp add: same_shape_refl)
next
  case (9 d g)
  show ?case by (simp add: same_shape_refl)
next
  case (10 t ts d g)
  show ?case
  proof (intro allI impI)
    fix d' g' assume v: "valid_data d" and c: "call_each (t # ts) d g = Inr (d', g')"
    from c obtain dm gm where a: "call t d g = Inr (dm, gm)" and b: "call_each ts dm gm = Inr (d', g')"
      by (auto split: sum.splits prod.splits)
    from 10(1) v a have s1: "same_shape d dm" by blast
    then have "valid_data dm" using v by (rule same_shape_valid)
    with 10(2) [OF a refl] b have "same_shape dm d'" by blast
    with s1 show "same_shape d d'" by (rule same_shape_trans)
  qed
next
  case (11 i d g)
  show ?case by simp
next
  case (12 t ts d g)
  show ?case
  proof (intro allI impI)
    fix d' g' assume v: "valid_data d" and c: "call_forced (t # ts) 0 d g = Inr (d', g')"
    from c have n: "\<not> force_apply d \<noteq> None" and a: "call t (d\<lparr>force_apply := Some True\<rparr>) g = Inr (d', g')"
      by (auto split: if_splits)
    from 12 [OF n] v a show "same_shape d d'"
      by (simp add: valid_data_force same_shape_force_l)
  qed
next
  case (13 t ts i d g)
  then show ?case by simp
next
  case (14 ts d g)
  show ?case by (simp add: same_shape_refl)
next
  case (15 ts i "is" d g)
  show ?case
  proof (intro allI impI)
    fix d' g' assume v: "valid_data d" and c: "call_picked ts (i # is) d g = Inr (d', g')"
    from c obtain dm gm where a: "call_forced ts i d g = Inr (dm, gm)" and b: "call_picked ts is dm gm = Inr (d', g')"
      by (auto split: sum.splits prod.splits)
    from 15(1) v a have s1: "same_shape d dm" by blast
    then have "valid_data dm" using v by (rule same_shape_valid)
    with 15(2) [OF a refl] b have "same_shape dm d'" by blast
    with s1 show "same_shape d d'" by (rule same_shape_trans)
  qed
qed

section \<open>Shape preservation of every operation\<close>

lemma kp_shape_dims:
  "kp_shape k' = kp_shape k \<Longrightarrow> length k' = length k \<and> num_joints k' = num_joints k \<and> num_coords k' = num_coords k"
proof -
  assume a: "kp_shape k' = kp_shape k"
  then have l: "length k' = length k" unfolding kp_shape_def by (rule map_eq_imp_length_eq)
  show ?thesis
  proof (cases k)
    case Nil
    with l show ?thesis by simp
  next
    case (Cons f fs)
    with l obtain f' fs' where k': "k' = f' # fs'" by (cases k') auto
    from a Cons k' have m: "map length f' = map length f" by (simp add: kp_shape_def)
    then have lf: "length f' = length f" by (rule map_eq_imp_length_eq)
    show ?thesis
    proof (cases f)
      case Nil
      with lf l Cons k' show ?thesis by (simp add: num_joints_def num_coords_def)
    next
      case (Cons j js)
      with lf obtain j' js' where f': "f' = j' # js'" by (cases f') auto
      from m Cons f' have "length j' = length j" by simp
      with l lf k' f' Cons \<open>k = f # fs\<close> show ?thesis by (simp add: num_joints_def num_coords_def)
    qed
  qed
qed

text \<open>
  Every operation (transform, selection, composition, root pipeline) that
  returns on a valid record returns a record whose keypoints have the same
  shape (T, V, C) and whose masks have the same shape (T, V) as on input; the
  returned record is valid again.
\<close>

theorem shapes_preserved:
  assumes "valid_data d" and "call t d g = Inr (d', g')"
  shows "kp_shape (keypoints d') = kp_shape (keypoints d)
       \<and> mask_shape (invalid d') = mask_shape (invalid d)
       \<and> mask_shape (peturbation d') = mask_shape (peturbation d)
       \<and> length (keypoints d') = length (keypoints d)
       \<and> num_joints (keypoints d') = num_joints (keypoints d)
       \<and> num_coords (keypoints d') = num_coords (keypoints d)
       \<and> valid_data d'"
proof -
  from call_shape_all(1) assms have s: "same_shape d d'" by blast
  then have "kp_shape (keypoints d') = kp_shape (keypoints d)" by (simp add: same_shape_def)
  from kp_shape_dims [OF this] s same_shape_valid [OF s assms(1)] show ?thesis
    by (simp add: same_shape_def)
qed

theorem shapes_preserved_witness:
  "valid_data d3
   \<and> call (Compose [Select (SelectFrames [2, 0]) [Transform WholeOcclusion False 1] 1,
                    Transform (HorizontalFlip 0) False 1] 1 True) d3 g_half
     = Inr (d3\<lparr>keypoints := [[[0, 0], [0, 0]], [[0, 0], [- 4, 4]], [[0, 0], [0, 0]]],
               invalid := [[True, True], [True, False], [True, True]]\<rparr>, g_half\<lparr>drawn := 3\<rparr>)
   \<and> kp_shape (keypoints (d3\<lparr>keypoints := [[[0, 0], [0, 0]], [[0, 0], [- 4, 4]], [[0, 0], [0, 0]]],
               invalid := [[True, True], [True, False], [True, True]]\<rparr>)) = kp_shape (keypoints d3)
   \<and> mask_shape (invalid (d3\<lparr>keypoints := [[[0, 0], [0, 0]], [[0, 0], [- 4, 4]], [[0, 0], [0, 0]]],
               invalid := [[True, True], [True, False], [True, True]]\<rparr>)) = mask_shape (invalid d3)"
proof -
  have v: "valid_data d3"
    by (simp add: valid_data_def d3_def kp_shape_def uniform_list_def shape_matches_def mask_shape_def)
  have c: "call (Compose [Select (SelectFrames [2, 0]) [Transform WholeOcclusion False 1] 1,
                    Transform (HorizontalFlip 0) False 1] 1 True) d3 g_half
     = Inr (d3\<lparr>keypoints := [[[0, 0], [0, 0]], [[0, 0], [- 4, 4]], [[0, 0], [0, 0]]],
               invalid := [[True, True], [True, False], [True, True]]\<rparr>, g_half\<lparr>drawn := 3\<rparr>)"
    by (simp add: d3_def g_half_def check_args_def shape_matches_def mask_shape_def gate_def py_random_def
      set_invalid_to_zero_def zero_invalid_def numeral_2_eq_2 numeral_3_eq_3
      select_data_def take_rows_def index_ok_def py_index_def ix_def write_back_def put_rows_def
      kp_shape_def apply_WholeOcclusion_def apply_HorizontalFlip_def)
  from shapes_preserved [OF v c] v c show ?thesis by simp
qed

subsection \<open>A swap of two joints where there is one\<close>

text \<open>
  With one joint \<^verbatim>\<open>random_utils.randint(0, 1, 2)\<close> is \<^verbatim>\<open>[0, 0]\<close> at every draw, so the
  loop \<^verbatim>\<open>while i1 == i2\<close> of \<^verbatim>\<open>SwapPerturbation.apply\<close> is never left.
\<close>

lemma draw_distinct_one_joint_aux:
  assumes "draw_distinct n g = Some y"
  shows "n = 1 \<longrightarrow> (\<forall>i. 0 \<le> tape g i \<and> tape g i < 1) \<longrightarrow> False"
proof (rule draw_distinct.raw_induct [OF _ assms])
  fix f n g y
  assume 1: "\<And>n g y. f n g = Some y \<Longrightarrow> n = 1 \<longrightarrow> (\<forall>i. 0 \<le> tape g i \<and> tape g i < 1) \<longrightarrow> False"
    "(case randint 0 n g of
        Inl e \<Rightarrow> Some (Inl e)
      | Inr (i1, g1) \<Rightarrow>
          (case randint 0 n g1 of
             Inl e \<Rightarrow> Some (Inl e)
           | Inr (i2, g2) \<Rightarrow> if i1 = i2 then f n g2 else Some (Inr (i1, i2, g2)))) = Some y"
  show "n = 1 \<longrightarrow> (\<forall>i. 0 \<le> tape g i \<and> tape g i < 1) \<longrightarrow> False"
  proof (intro impI)
    assume n: "n = 1" and t: "\<forall>i. 0 \<le> tape g i \<and> tape g i < 1"
    define g2 where "g2 = g\<lparr>drawn := Suc (Suc (drawn g))\<rparr>"
    have f: "\<lfloor>tape g i\<rfloor> = 0" for i using t by (simp add: floor_eq_iff)
    have r1: "randint 0 1 g = Inr (0, g\<lparr>drawn := Suc (drawn g)\<rparr>)"
      by (simp add: randint_def py_random_def f)
    have r2: "randint 0 1 (g\<lparr>drawn := Suc (drawn g)\<rparr>) = Inr (0, g2)"
      by (simp add: randint_def py_random_def f g2_def)
    from 1(2) have "f 1 g2 = Some y" by (simp add: n r1 r2)
    moreover have "\<forall>i. 0 \<le> tape g2 i \<and> tape g2 i < 1" using t by (simp add: g2_def)
    ultimately show False using 1(1) by blast
  qed
qed

lemma draw_distinct_one_joint:
  assumes "\<forall>i. 0 \<le> tape g i \<and> tape g i < 1"
  shows "draw_distinct 1 g = None"
proof (cases "draw_distinct 1 g")
  case None
  then show ?thesis .
next
  case (Some y)
  from draw_distinct_one_joint_aux [OF Some] assms show ?thesis by simp
qed

lemma SwapPerturbation_one_joint:
  assumes "num_joints (keypoints d) = 1" and "\<forall>i. 0 \<le> tape g i \<and> tape g i < 1"
  shows "apply_SwapPerturbation d g = Inl Diverges"
  using draw_distinct_one_joint [OF assms(2)] by (simp add: apply_SwapPerturbation_def assms(1))

text \<open>
  \<^verbatim>\<open>MirrorPerturbation\<close>, which swaps the columns of the pairs it is given, returns
  on the same record, also for a pair of equal indices.
\<close>

lemma MirrorPerturbation_one_joint_returns:
  "call (Transform (MirrorPerturbation [(0, 0)]) True 1) d4 g_half = Inr (d4, g_half\<lparr>drawn := 1\<rparr>)"
  by (simp add: py_random_def apply_MirrorPerturbation_def swap_cols_def cols_ok_def index_ok_def
    take_cols_def put_cols_def ix_def py_index_def d4_def g_half_def Let_def)

text \<open>
  C8. The claim is that every operation returns, on every valid record, a record
  of the same shapes. \<^verbatim>\<open>SwapPerturbation\<close> does not: on the valid record \<open>d4\<close> of
  four frames of one joint its call, with \<^verbatim>\<open>always_apply=True\<close>, never returns.
\<close>

theorem SwapPerturbation_never_returns:
  "valid_data d4 \<and> num_joints (keypoints d4) = 1
   \<and> call (Transform SwapPerturbation True 1) d4 g_half = Inl Diverges"
proof -
  have v: "valid_data d4"
    by (simp add: valid_data_def d4_def kp_shape_def uniform_list_def shape_matches_def mask_shape_def)
  have n: "num_joints (keypoints (d4\<lparr>force_apply := None\<rparr>)) = 1" by (simp add: d4_def num_joints_def)
  have t: "\<forall>i. 0 \<le> tape (g_half\<lparr>drawn := Suc (drawn g_half)\<rparr>) i
             \<and> tape (g_half\<lparr>drawn := Suc (drawn g_half)\<rparr>) i < 1"
    by (simp add: g_half_def)
  from SwapPerturbation_one_joint [OF n t] v n show ?thesis by (simp add: py_random_def)
qed

section \<open>The root pipeline zeroes invalid joints\<close>

lemma zero_invalid_nth:
  "t < length k \<Longrightarrow> v < length (k ! t) \<Longrightarrow>
   zero_invalid k m ! t ! v = (if m ! t ! v then map (\<lambda>_. 0) (k ! t ! v) else k ! t ! v)"
  by (simp add: zero_invalid_def)

text \<open>
  C4. On a valid record the root pipeline with \<^verbatim>\<open>set_invalid_to_zero=True\<close> returns
  whenever its children do; where the mask that the children return is true the
  coordinates of the joint are all zero, elsewhere the joint is as the
  children returned it, and the masks are the children's.
\<close>

theorem root_zeroes_invalid:
  assumes "valid_data d" and "call_each ts (d\<lparr>force_apply := None\<rparr>) g = Inr (d1, g1)"
  shows "\<exists>d'. call (Compose ts p True) d g = Inr (d', g1)
     \<and> invalid d' = invalid d1 \<and> peturbation d' = peturbation d1
     \<and> kp_shape (keypoints d') = kp_shape (keypoints d1)
     \<and> (\<forall>t v. t < length (keypoints d1) \<and> v < length (keypoints d1 ! t) \<longrightarrow>
           keypoints d' ! t ! v =
             (if invalid d1 ! t ! v then map (\<lambda>_. 0) (keypoints d1 ! t ! v) else keypoints d1 ! t ! v))"
proof -
  have v0: "valid_data (d\<lparr>force_apply := None\<rparr>)" using assms(1) by (simp add: valid_data_force)
  from call_shape_all(2) v0 assms(2) have "same_shape (d\<lparr>force_apply := None\<rparr>) d1" by blast
  from same_shape_valid [OF this v0] have v1: "valid_data d1" .
  then have sm: "shape_matches (invalid d1) (keypoints d1)" by (simp add: valid_data_def)
  have ca: "check_args (Some (keypoints d)) (Some (invalid d)) (Some (peturbation d)) = Inr (d\<lparr>force_apply := None\<rparr>)"
    using assms(1) by (cases d) (simp add: check_args_def valid_data_def)
  have c: "call (Compose ts p True) d g = Inr (d1\<lparr>keypoints := zero_invalid (keypoints d1) (invalid d1)\<rparr>, g1)"
    using ca assms(2) sm by (simp add: set_invalid_to_zero_def)
  show ?thesis
  proof (intro exI [of _ "d1\<lparr>keypoints := zero_invalid (keypoints d1) (invalid d1)\<rparr>"] conjI)
    show "call (Compose ts p True) d g = Inr (d1\<lparr>keypoints := zero_invalid (keypoints d1) (invalid d1)\<rparr>, g1)"
      by (rule c)
  qed (simp_all add: kp_shape_zero_invalid zero_invalid_nth)
qed

theorem root_zeroes_invalid_witness:
  "valid_data d3
   \<and> call_each [Transform (HorizontalFlip 0) False 1] (d3\<lparr>force_apply := None\<rparr>) g_half
       = Inr (d3\<lparr>keypoints := [[[- 1, 1], [- 2, 2]], [[- 3, 3], [- 4, 4]], [[- 5, 5], [- 6, 6]]]\<rparr>,
              g_half\<lparr>drawn := 1\<rparr>)
   \<and> call (Compose [Transform (HorizontalFlip 0) False 1] (1 / 2) True) d3 g_half
       = Inr (d3\<lparr>keypoints := [[[- 1, 1], [- 2, 2]], [[0, 0], [- 4, 4]], [[- 5, 5], [- 6, 6]]]\<rparr>,
              g_half\<lparr>drawn := 1\<rparr>)"
proof -
  have v: "valid_data d3"
    by (simp add: valid_data_def d3_def kp_shape_def uniform_list_def shape_matches_def mask_shape_def)
  have c: "call_each [Transform (HorizontalFlip 0) False 1] (d3\<lparr>force_apply := None\<rparr>) g_half
       = Inr (d3\<lparr>keypoints := [[[- 1, 1], [- 2, 2]], [[- 3, 3], [- 4, 4]], [[- 5, 5], [- 6, 6]]]\<rparr>,
              g_half\<lparr>drawn := 1\<rparr>)"
    by (simp add: d3_def g_half_def py_random_def apply_HorizontalFlip_def)
  have e: "call (Compose [Transform (HorizontalFlip 0) False 1] (1 / 2) True) d3 g_half
       = Inr (d3\<lparr>keypoints := [[[- 1, 1], [- 2, 2]], [[0, 0], [- 4, 4]], [[- 5, 5], [- 6, 6]]]\<rparr>,
              g_half\<lparr>drawn := 1\<rparr>)"
    by (simp add: d3_def g_half_def check_args_def shape_matches_def mask_shape_def py_random_def
      set_invalid_to_zero_def zero_invalid_def numeral_2_eq_2 numeral_3_eq_3 apply_HorizontalFlip_def)
  from root_zeroes_invalid [OF v c, of "1 / 2"] v c e show ?thesis by simp
qed

section \<open>Scatter-back of a fixed frame list\<close>

lemma fold_update_other:
  "k \<notin> h ` fst ` set zs \<Longrightarrow> fold (\<lambda>(i, v) ys. ys[h i := v]) zs xs ! k = xs ! k"
  by (induction zs arbitrary: xs) (auto simp: nth_list_update_neq)

lemma fold_update_last:
  "j < length zs \<Longrightarrow> h (fst (zs ! j)) < length xs \<Longrightarrow>
   h (fst (zs ! j)) \<notin> h ` fst ` set (drop (Suc j) zs) \<Longrightarrow>
   fold (\<lambda>(i, v) ys. ys[h i := v]) zs xs ! h (fst (zs ! j)) = snd (zs ! j)"
proof (induction zs arbitrary: xs j)
  case Nil
  then show ?case by simp
next
  case (Cons z zs)
  obtain i v where z: "z = (i, v)" by (cases z)
  show ?case
  proof (cases j)
    case 0
    with Cons.prems z have "fold (\<lambda>(i, v) ys. ys[h i := v]) zs (xs[h i := v]) ! h i = xs[h i := v] ! h i"
      by (intro fold_update_other) simp
    with 0 Cons.prems z show ?thesis by simp
  next
    case (Suc n)
    with Cons.prems have "fold (\<lambda>(i, v) ys. ys[h i := v]) zs (xs[h i := v]) ! h (fst (zs ! n)) = snd (zs ! n)"
      by (intro Cons.IH) simp_all
    with Suc z show ?thesis by simp
  qed
qed

lemma put_rows_nth:
  assumes "put_rows xs ids vs = Inr ys" and "list_all (\<lambda>f. 0 \<le> f \<and> f < int (length xs)) ids"
  shows "length ys = length xs"
    and "t < length xs \<Longrightarrow> int t \<notin> set ids \<Longrightarrow> ys ! t = xs ! t"
    and "j < length ids \<Longrightarrow> ids ! j \<notin> set (drop (Suc j) ids) \<Longrightarrow> ys ! nat (ids ! j) = vs ! j"
proof -
  from assms(1) have ys: "ys = fold (\<lambda>(i, v) ys. ys[ix (length xs) i := v]) (zip ids vs) xs"
    and len: "length vs = length ids"
    by (auto simp: put_rows_def split: if_splits)
  have ixn: "ix (length xs) f = nat f" if "f \<in> set ids" for f
    using assms(2) that by (auto simp: list_all_iff ix_def py_index_def)
  show "length ys = length xs" by (simp add: ys length_fold_update)
  show "ys ! t = xs ! t" if "t < length xs" "int t \<notin> set ids"
    unfolding ys
  proof (rule fold_update_other, rule notI)
    assume "t \<in> ix (length xs) ` fst ` set (zip ids vs)"
    then obtain f where f: "f \<in> set ids" "t = ix (length xs) f" by (auto dest: set_zip_leftD)
    with ixn have "t = nat f" by simp
    moreover have "0 \<le> f" using assms(2) f(1) by (auto simp: list_all_iff)
    ultimately have "int t = f" by simp
    with f(1) that(2) show False by simp
  qed
  show "ys ! nat (ids ! j) = vs ! j" if "j < length ids" "ids ! j \<notin> set (drop (Suc j) ids)"
  proof -
    have j: "j < length (zip ids vs)" using that(1) len by simp
    have a: "fst (zip ids vs ! j) = ids ! j" and b: "snd (zip ids vs ! j) = vs ! j"
      using that(1) len by simp_all
    have mem: "ids ! j \<in> set ids" using that(1) by simp
    have r: "0 \<le> ids ! j" "ids ! j < int (length xs)"
      using assms(2) mem by (auto simp: list_all_iff)
    have c: "ix (length xs) (ids ! j) < length xs" using r ixn [OF mem] by simp
    have d: "ix (length xs) (ids ! j) \<notin> ix (length xs) ` fst ` set (drop (Suc j) (zip ids vs))"
    proof
      assume "ix (length xs) (ids ! j) \<in> ix (length xs) ` fst ` set (drop (Suc j) (zip ids vs))"
      then obtain f where f: "f \<in> set (drop (Suc j) ids)" "ix (length xs) (ids ! j) = ix (length xs) f"
        by (auto simp: drop_zip dest: set_zip_leftD)
      then have fm: "f \<in> set ids" by (meson in_set_dropD)
      have "0 \<le> f" using assms(2) fm by (auto simp: list_all_iff)
      with f(2) ixn [OF fm] ixn [OF mem] r have "ids ! j = f" by simp
      with f(1) that(2) show False by simp
    qed
    from fold_update_last [of j "zip ids vs" "ix (length xs)" xs, OF j] a b c d
    have "ys ! ix (length xs) (ids ! j) = vs ! j" by (simp add: ys)
    then show ?thesis using ixn [OF mem] by simp
  qed
qed

lemma take_rows_in_range:
  assumes "list_all (\<lambda>f. 0 \<le> f \<and> f < int (length xs)) ids"
  shows "take_rows xs ids = Inr (map (\<lambda>f. xs ! nat f) ids)"
proof -
  have "index_ok (length xs) f \<and> ix (length xs) f = nat f" if "f \<in> set ids" for f
    using assms that by (auto simp: list_all_iff index_ok_def ix_def py_index_def)
  then show ?thesis by (auto simp: take_rows_def list_all_iff)
qed

lemma put_rows_in_range:
  assumes "list_all (\<lambda>f. 0 \<le> f \<and> f < int (length xs)) ids" "length vs = length ids"
  shows "\<exists>ys. put_rows xs ids vs = Inr ys"
proof -
  have "index_ok (length xs) f" if "f \<in> set ids" for f
    using assms that by (auto simp: list_all_iff index_ok_def py_index_def)
  then show ?thesis using assms(2) by (auto simp: put_rows_def list_all_iff)
qed

text \<open>
  C1. A fixed-frame-list selection called with \<^verbatim>\<open>force_apply=True\<close> on a valid
  record, with all frames in range, makes no draw of its own, runs its children
  on the extracted frames and returns whenever they do. In the result every
  frame that is not in the list is unchanged in every array, and the frame at
  position \<open>j\<close> of the list holds row \<open>j\<close> of the children's output (for an
  index that is repeated, the row of its last position).
\<close>

theorem select_frames_scatter:
  assumes v: "valid_data d"
    and fr: "list_all (\<lambda>f. 0 \<le> f \<and> f < int (length (keypoints d))) frames"
    and sd: "sd = \<lparr>keypoints = map (\<lambda>f. keypoints d ! nat f) frames,
                   invalid = map (\<lambda>f. invalid d ! nat f) frames,
                   peturbation = map (\<lambda>f. peturbation d ! nat f) frames,
                   force_apply = None\<rparr>"
    and ch: "call_each ts sd g = Inr (sd', g')"
  shows "\<exists>d'. call (Select (SelectFrames frames) ts p) (d\<lparr>force_apply := Some True\<rparr>) g = Inr (d', g')
     \<and> length (keypoints d') = length (keypoints d)
     \<and> length (invalid d') = length (invalid d)
     \<and> length (peturbation d') = length (peturbation d)
     \<and> (\<forall>t. t < length (keypoints d) \<and> int t \<notin> set frames \<longrightarrow>
            keypoints d' ! t = keypoints d ! t \<and> invalid d' ! t = invalid d ! t
            \<and> peturbation d' ! t = peturbation d ! t)
     \<and> (\<forall>j. j < length frames \<and> frames ! j \<notin> set (drop (Suc j) frames) \<longrightarrow>
            keypoints d' ! nat (frames ! j) = keypoints sd' ! j
            \<and> invalid d' ! nat (frames ! j) = invalid sd' ! j
            \<and> peturbation d' ! nat (frames ! j) = peturbation sd' ! j)"
proof -
  define D where "D = d\<lparr>force_apply := Some True\<rparr>"
  define D0 where "D0 = d\<lparr>force_apply := None\<rparr>"
  have T1: "length (invalid d) = length (keypoints d)"
    using v by (metis valid_data_def shape_matches_def mask_shape_def length_map)
  have T2: "length (peturbation d) = length (keypoints d)"
    using v by (metis valid_data_def shape_matches_def mask_shape_def length_map)
  have fr1: "list_all (\<lambda>f. 0 \<le> f \<and> f < int (length (invalid d))) frames" using fr T1 by simp
  have fr2: "list_all (\<lambda>f. 0 \<le> f \<and> f < int (length (peturbation d))) frames" using fr T2 by simp
  have sel: "select_data D frames = Inr sd"
    by (simp add: select_data_def D_def take_rows_in_range [OF fr] take_rows_in_range [OF fr1]
        take_rows_in_range [OF fr2] sd)
  have vD: "valid_data D" using v by (simp add: D_def valid_data_force)
  have vsd: "valid_data sd" by (rule select_data_valid [OF sel vD])
  from call_shape_all(2) vsd ch have ss: "same_shape sd sd'" by blast
  have l1: "length (keypoints sd') = length frames"
    using ss by (metis same_shape_def kp_shape_def map_eq_imp_length_eq length_map sd data.select_convs(1))
  have l2: "length (invalid sd') = length frames"
    using ss by (metis same_shape_def mask_shape_def map_eq_imp_length_eq length_map sd data.select_convs(2))
  have l3: "length (peturbation sd') = length frames"
    using ss by (metis same_shape_def mask_shape_def map_eq_imp_length_eq length_map sd data.select_convs(3))
  from put_rows_in_range [OF fr l1] obtain k' where k': "put_rows (keypoints d) frames (keypoints sd') = Inr k'" by blast
  from put_rows_in_range [OF fr1 l2] obtain m' where m': "put_rows (invalid d) frames (invalid sd') = Inr m'" by blast
  from put_rows_in_range [OF fr2 l3] obtain pm' where pm': "put_rows (peturbation d) frames (peturbation sd') = Inr pm'" by blast
  define d' where "d' = D0\<lparr>keypoints := k', invalid := m', peturbation := pm'\<rparr>"
  have wb: "write_back D0 frames sd sd' = Inr d'"
    using ss k' m' pm' by (simp add: write_back_def same_shape_def D0_def d'_def)
  have gs: "get_selection (SelectFrames frames) D0 g = Inr (frames, g)"
    using fr by (simp add: D0_def)
  have c: "call (Select (SelectFrames frames) ts p) D g = Inr (d', g')"
    using gs sel ch wb by (simp add: gate_def D_def D0_def)
  note K = put_rows_nth [OF k' fr] and M = put_rows_nth [OF m' fr1] and PM = put_rows_nth [OF pm' fr2]
  show ?thesis
  proof (intro exI [of _ d'] conjI allI impI)
    show "call (Select (SelectFrames frames) ts p) (d\<lparr>force_apply := Some True\<rparr>) g = Inr (d', g')"
      using c by (simp add: D_def)
  next
    fix t assume "t < length (keypoints d) \<and> int t \<notin> set frames"
    then show "keypoints d' ! t = keypoints d ! t" using K(2) by (simp add: d'_def)
  next
    fix t assume "t < length (keypoints d) \<and> int t \<notin> set frames"
    then show "invalid d' ! t = invalid d ! t" using M(2) T1 by (simp add: d'_def)
  next
    fix t assume "t < length (keypoints d) \<and> int t \<notin> set frames"
    then show "peturbation d' ! t = peturbation d ! t" using PM(2) T2 by (simp add: d'_def)
  next
    fix j assume "j < length frames \<and> frames ! j \<notin> set (drop (Suc j) frames)"
    then show "keypoints d' ! nat (frames ! j) = keypoints sd' ! j" using K(3) by (simp add: d'_def)
  next
    fix j assume "j < length frames \<and> frames ! j \<notin> set (drop (Suc j) frames)"
    then show "invalid d' ! nat (frames ! j) = invalid sd' ! j" using M(3) by (simp add: d'_def)
  next
    fix j assume "j < length frames \<and> frames ! j \<notin> set (drop (Suc j) frames)"
    then show "peturbation d' ! nat (frames ! j) = peturbation sd' ! j" using PM(3) by (simp add: d'_def)
  qed (simp_all add: d'_def K(1) M(1) PM(1))
qed

theorem select_frames_scatter_witness:
  "valid_data d3
   \<and> list_all (\<lambda>f. 0 \<le> f \<and> f < int (length (keypoints d3))) [2, 0]
   \<and> call_each [Select (SelectFrames [1]) [Transform WholeOcclusion False 1] 1]
        \<lparr>keypoints = [[[5, 5], [6, 6]], [[1, 1], [2, 2]]], invalid = [[False, False], [False, False]],
         peturbation = [[False, False], [False, False]], force_apply = None\<rparr> g_half
       = Inr (\<lparr>keypoints = [[[5, 5], [6, 6]], [[1, 1], [2, 2]]], invalid = [[False, False], [True, True]],
               peturbation = [[False, False], [False, False]], force_apply = None\<rparr>, g_half\<lparr>drawn := 2\<rparr>)
   \<and> call (Select (SelectFrames [2, 0]) [Select (SelectFrames [1]) [Transform WholeOcclusion False 1] 1] 0)
        (d3\<lparr>force_apply := Some True\<rparr>) g_half
       = Inr (d3\<lparr>invalid := [[True, True], [True, False], [False, False]]\<rparr>, g_half\<lparr>drawn := 2\<rparr>)"
proof -
  have v: "valid_data d3"
    by (simp add: valid_data_def d3_def kp_shape_def uniform_list_def shape_matches_def mask_shape_def)
  have fr: "list_all (\<lambda>f. 0 \<le> f \<and> f < int (length (keypoints d3))) [2, 0]"
    by (simp add: d3_def)
  have sd: "\<lparr>keypoints = [[[5, 5], [6, 6]], [[1, 1], [2, 2]]], invalid = [[False, False], [False, False]],
         peturbation = [[False, False], [False, False]], force_apply = None\<rparr>
     = \<lparr>keypoints = map (\<lambda>f. keypoints d3 ! nat f) [2, 0],
        invalid = map (\<lambda>f. invalid d3 ! nat f) [2, 0],
        peturbation = map (\<lambda>f. peturbation d3 ! nat f) [2, 0],
        force_apply = None\<rparr>"
    by (simp add: d3_def numeral_2_eq_2)
  have ch: "call_each [Select (SelectFrames [1]) [Transform WholeOcclusion False 1] 1]
        \<lparr>keypoints = [[[5, 5], [6, 6]], [[1, 1], [2, 2]]], invalid = [[False, False], [False, False]],
         peturbation = [[False, False], [False, False]], force_apply = None\<rparr> g_half
       = Inr (\<lparr>keypoints = [[[5, 5], [6, 6]], [[1, 1], [2, 2]]], invalid = [[False, False], [True, True]],
               peturbation = [[False, False], [False, False]], force_apply = None\<rparr>, g_half\<lparr>drawn := 2\<rparr>)"
    by (simp add: g_half_def gate_def py_random_def select_data_def take_rows_def index_ok_def
        py_index_def ix_def write_back_def put_rows_def kp_shape_def mask_shape_def apply_WholeOcclusion_def)
  have c: "call (Select (SelectFrames [2, 0]) [Select (SelectFrames [1]) [Transform WholeOcclusion False 1] 1] 0)
        (d3\<lparr>force_apply := Some True\<rparr>) g_half
       = Inr (d3\<lparr>invalid := [[True, True], [True, False], [False, False]]\<rparr>, g_half\<lparr>drawn := 2\<rparr>)"
    by (simp add: d3_def g_half_def gate_def py_random_def select_data_def take_rows_def index_ok_def
        py_index_def ix_def write_back_def put_rows_def kp_shape_def mask_shape_def apply_WholeOcclusion_def
        numeral_2_eq_2)
  from select_frames_scatter [OF v fr sd ch, of 0] v fr ch c show ?thesis by simp
qed

section \<open>The window of highest movement\<close>















section \<open>Interpolation of occluded joints\<close>

lemma column_nth: "t < length a \<Longrightarrow> column a k ! t = a ! t ! k"
  by (simp add: column_def)

lemma length_column: "length (column a k) = length a"
  by (simp add: column_def)

lemma length_interpolate_map: "length (interpolate_map msk) = length msk"
  by (simp add: interpolate_map_def Let_def)

lemma interpolate_joint_nth:
  assumes T: "length (invalid d) = length (keypoints d)" and t: "t < length (keypoints d)"
    and j: "j < length (keypoints d ! t)" "j < length (invalid d ! t)"
  shows "keypoints (interpolate_joint k d) ! t ! j =
           (if j = k then joint_kp (column (keypoints d) k) (column (invalid d) k) t else keypoints d ! t ! j)"
    and "invalid (interpolate_joint k d) ! t ! j =
           (if j = k then joint_invalid (column (invalid d) k) t else invalid d ! t ! j)"
proof -
  define kp where "kp = column (keypoints d) k"
  define msk where "msk = column (invalid d) k"
  have kpt: "kp ! t = keypoints d ! t ! k" using t by (simp add: kp_def column_nth)
  have mskt: "msk ! t = invalid d ! t ! k" using t T by (simp add: msk_def column_nth)
  show "keypoints (interpolate_joint k d) ! t ! j =
           (if j = k then joint_kp (column (keypoints d) k) (column (invalid d) k) t else keypoints d ! t ! j)"
  proof (cases "length (valid_ids msk) < 2")
    case True
    then have "interpolate_joint k d = d"
      unfolding interpolate_joint_def kp_def [symmetric] msk_def [symmetric] Let_def by simp
    then show ?thesis using True kpt
      by (simp add: joint_kp_def kp_def [symmetric] msk_def [symmetric])
  next
    case False
    then have "keypoints (interpolate_joint k d) ! t =
        (if interpolate_map msk ! t
         then (keypoints d ! t)[k := interp1d (map (\<lambda>t. (t, kp ! t)) (valid_ids msk)) t]
         else keypoints d ! t)"
      unfolding interpolate_joint_def kp_def [symmetric] msk_def [symmetric] Let_def using t by simp
    then show ?thesis using False kpt j
      by (cases "j = k") (simp_all add: joint_kp_def kp_def [symmetric] msk_def [symmetric])
  qed
  show "invalid (interpolate_joint k d) ! t ! j =
           (if j = k then joint_invalid (column (invalid d) k) t else invalid d ! t ! j)"
  proof (cases "length (valid_ids msk) < 2")
    case True
    then have "interpolate_joint k d = d"
      unfolding interpolate_joint_def kp_def [symmetric] msk_def [symmetric] Let_def by simp
    then show ?thesis using True mskt
      by (simp add: joint_invalid_def msk_def [symmetric])
  next
    case False
    then have "invalid (interpolate_joint k d) ! t =
        (if interpolate_map msk ! t then (invalid d ! t)[k := False] else invalid d ! t)"
      unfolding interpolate_joint_def kp_def [symmetric] msk_def [symmetric] Let_def using t T by simp
    then show ?thesis using False mskt j
      by (cases "j = k") (simp_all add: joint_invalid_def msk_def [symmetric])
  qed
qed

lemma valid_lengths:
  assumes "valid_data d"
  shows "length (invalid d) = length (keypoints d)"
    and "t < length (keypoints d) \<Longrightarrow> length (invalid d ! t) = num_joints (keypoints d)"
proof -
  show T: "length (invalid d) = length (keypoints d)"
    using assms by (metis valid_data_def shape_matches_def mask_shape_def length_map)
  assume t: "t < length (keypoints d)"
  from assms have "mask_shape (invalid d) ! t = map length (keypoints d) ! t"
    by (simp add: valid_data_def shape_matches_def)
  then have "length (invalid d ! t) = length (keypoints d ! t)" using t T by (simp add: mask_shape_def)
  then show "length (invalid d ! t) = num_joints (keypoints d)"
    using valid_frames [OF assms t] by simp
qed

lemma same_shape_length: "same_shape d d' \<Longrightarrow> length (keypoints d') = length (keypoints d)"
  by (metis same_shape_def kp_shape_def map_eq_imp_length_eq)

lemma fold_interpolate_nth:
  assumes "valid_data d" "distinct ks" "\<forall>k \<in> set ks. k < num_joints (keypoints d)"
    and "t < length (keypoints d)" "j < num_joints (keypoints d)"
  shows "keypoints (fold interpolate_joint ks d) ! t ! j =
           (if j \<in> set ks then joint_kp (column (keypoints d) j) (column (invalid d) j) t
            else keypoints d ! t ! j)
       \<and> invalid (fold interpolate_joint ks d) ! t ! j =
           (if j \<in> set ks then joint_invalid (column (invalid d) j) t else invalid d ! t ! j)"
  using assms
proof (induction ks arbitrary: d)
  case Nil
  then show ?case by simp
next
  case (Cons k ks)
  define d1 where "d1 = interpolate_joint k d"
  have k: "k < num_joints (keypoints d)" using Cons.prems(3) by simp
  have ss: "same_shape d d1" unfolding d1_def by (rule interpolate_joint_shape [OF Cons.prems(1) k])
  have v1: "valid_data d1" by (rule same_shape_valid [OF ss Cons.prems(1)])
  have T1: "length (keypoints d1) = length (keypoints d)" by (rule same_shape_length [OF ss])
  have V1: "num_joints (keypoints d1) = num_joints (keypoints d)" by (rule same_shape_num_joints [OF ss])
  note L = valid_lengths [OF Cons.prems(1)] and L1 = valid_lengths [OF v1]
  have entry: "keypoints d1 ! u ! i =
           (if i = k then joint_kp (column (keypoints d) k) (column (invalid d) k) u else keypoints d ! u ! i)
       \<and> invalid d1 ! u ! i =
           (if i = k then joint_invalid (column (invalid d) k) u else invalid d ! u ! i)"
    if "u < length (keypoints d)" "i < num_joints (keypoints d)" for u i
    unfolding d1_def
    using interpolate_joint_nth [OF L(1) that(1), of i k] that valid_frames [OF Cons.prems(1) that(1)] L(2) [OF that(1)]
    by simp
  have cols: "column (keypoints d1) i = column (keypoints d) i \<and> column (invalid d1) i = column (invalid d) i"
    if "i \<noteq> k" "i < num_joints (keypoints d)" for i
  proof
    show "column (keypoints d1) i = column (keypoints d) i"
      by (rule nth_equalityI) (use entry that T1 in \<open>auto simp: length_column column_nth\<close>)
    show "column (invalid d1) i = column (invalid d) i"
      by (rule nth_equalityI) (use entry that T1 L(1) L1(1) in \<open>auto simp: length_column column_nth\<close>)
  qed
  have IH: "keypoints (fold interpolate_joint ks d1) ! t ! j =
           (if j \<in> set ks then joint_kp (column (keypoints d1) j) (column (invalid d1) j) t
            else keypoints d1 ! t ! j)
       \<and> invalid (fold interpolate_joint ks d1) ! t ! j =
           (if j \<in> set ks then joint_invalid (column (invalid d1) j) t else invalid d1 ! t ! j)"
    by (rule Cons.IH [OF v1]) (use Cons.prems T1 V1 in auto)
  show ?case
  proof (cases "j \<in> set ks")
    case True
    then have "j \<noteq> k" using Cons.prems(2) by auto
    with cols Cons.prems(5) have "column (keypoints d1) j = column (keypoints d) j"
        "column (invalid d1) j = column (invalid d) j" by auto
    with IH True show ?thesis by (simp add: d1_def)
  next
    case False
    with IH entry [OF Cons.prems(4,5)] show ?thesis by (auto simp: d1_def)
  qed
qed

lemma interp1d_between:
  assumes "sorted_wrt (<) xs" "xs \<noteq> []" "hd xs < t" "t < last xs" "t \<notin> set xs"
  shows "\<exists>a b. a \<in> set xs \<and> b \<in> set xs \<and> a < t \<and> t < b \<and> (\<forall>x \<in> set xs. \<not> (a < x \<and> x < b))
           \<and> interp1d (map (\<lambda>x. (x, y x)) xs) t = lerp a (y a) b (y b) t"
  using assms
proof (induction xs)
  case Nil
  then show ?case by simp
next
  case (Cons x0 xs1)
  from Cons.prems(3,4) have "xs1 \<noteq> []" by auto
  then obtain x1 rest where xs1: "xs1 = x1 # rest" by (cases xs1) auto
  show ?case
  proof (cases "t \<le> x1")
    case True
    with Cons.prems(5) xs1 have lt: "t < x1" by auto
    have i: "interp1d (map (\<lambda>x. (x, y x)) (x0 # xs1)) t = lerp x0 (y x0) x1 (y x1) t"
      using True by (simp add: xs1)
    have "\<forall>x \<in> set (x0 # xs1). \<not> (x0 < x \<and> x < x1)"
      using Cons.prems(1) by (auto simp: xs1)
    with i lt Cons.prems(3) show ?thesis
      by (intro exI [of _ x0] exI [of _ x1]) (simp add: xs1)
  next
    case False
    then have gt: "x1 < t" by simp
    have rest: "rest \<noteq> []" using Cons.prems(4) gt xs1 by (cases rest) auto
    have i: "interp1d (map (\<lambda>x. (x, y x)) (x0 # xs1)) t = interp1d (map (\<lambda>x. (x, y x)) xs1) t"
      using False rest by (simp add: xs1)
    have "\<exists>a b. a \<in> set xs1 \<and> b \<in> set xs1 \<and> a < t \<and> t < b \<and> (\<forall>x \<in> set xs1. \<not> (a < x \<and> x < b))
           \<and> interp1d (map (\<lambda>x. (x, y x)) xs1) t = lerp a (y a) b (y b) t"
      by (rule Cons.IH) (use Cons.prems gt xs1 in auto)
    then obtain a b where ab: "a \<in> set xs1" "b \<in> set xs1" "a < t" "t < b"
      "\<forall>x \<in> set xs1. \<not> (a < x \<and> x < b)"
      "interp1d (map (\<lambda>x. (x, y x)) xs1) t = lerp a (y a) b (y b) t" by blast
    have "x0 < a" using Cons.prems(1) ab(1) by auto
    then have "\<forall>x \<in> set (x0 # xs1). \<not> (a < x \<and> x < b)" using ab(5) by auto
    with ab i show ?thesis by (intro exI [of _ a] exI [of _ b]) simp
  qed
qed

lemma sorted_valid_ids: "sorted_wrt (<) (valid_ids msk)"
  unfolding valid_ids_def by (intro sorted_wrt_filter sorted_wrt_upt)

lemma set_valid_ids: "set (valid_ids msk) = {u. u < length msk \<and> \<not> msk ! u}"
  by (auto simp: valid_ids_def)

lemma Min_sorted_hd: "sorted_wrt (<) xs \<Longrightarrow> xs \<noteq> [] \<Longrightarrow> Min (set xs) = hd (xs :: nat list)"
  by (cases xs) (auto intro!: Min_eqI dest: less_imp_le)

lemma Max_sorted_last: "sorted_wrt (<) xs \<Longrightarrow> xs \<noteq> [] \<Longrightarrow> Max (set xs) = last (xs :: nat list)"
proof (induction xs)
  case Nil
  then show ?case by simp
next
  case (Cons x xs)
  show ?case
  proof (cases "xs = []")
    case True
    then show ?thesis by simp
  next
    case False
    with Cons have "Max (set xs) = last xs" by simp
    moreover have "x < last xs" using Cons.prems(1) False by simp
    ultimately show ?thesis using False by (simp add: max_def)
  qed
qed

lemma interpolate_map_nth:
  assumes "valid_ids msk \<noteq> []" "t < length msk"
  shows "interpolate_map msk ! t =
      (msk ! t \<and> (\<exists>a \<in> set (valid_ids msk). a < t) \<and> (\<exists>b \<in> set (valid_ids msk). t < b))"
proof -
  let ?v = "valid_ids msk"
  have fin: "finite (set ?v)" "set ?v \<noteq> {}" using assms(1) by simp_all
  have m: "interpolate_map msk ! t = (msk ! t \<and> Min (set ?v) \<le> t \<and> t < Max (set ?v))"
    using assms(2) by (simp add: interpolate_map_def Let_def)
  have lo: "Min (set ?v) \<in> set ?v" and hi: "Max (set ?v) \<in> set ?v"
    using fin by (simp_all add: Min_in Max_in)
  show ?thesis unfolding m
  proof (intro iffI conjI)
    assume a: "msk ! t \<and> Min (set ?v) \<le> t \<and> t < Max (set ?v)"
    then show "msk ! t" by simp
    from lo have "\<not> msk ! Min (set ?v)" by (simp add: set_valid_ids)
    with a have "Min (set ?v) \<noteq> t" by auto
    with a have "Min (set ?v) < t" by simp
    with lo show "\<exists>a \<in> set ?v. a < t" by blast
    from a hi show "\<exists>b \<in> set ?v. t < b" by blast
  next
    assume a: "msk ! t \<and> (\<exists>a \<in> set ?v. a < t) \<and> (\<exists>b \<in> set ?v. t < b)"
    then show "msk ! t" by simp
    from a obtain x where x: "x \<in> set ?v" "x < t" by blast
    have "Min (set ?v) \<le> x" using fin x(1) by simp
    with x(2) show "Min (set ?v) \<le> t" by simp
    from a obtain z where z: "z \<in> set ?v" "t < z" by blast
    have "z \<le> Max (set ?v)" using fin z(1) by simp
    with z(2) show "t < Max (set ?v)" by simp
  qed
qed

lemma joint_kp_between:
  assumes "\<not> length (valid_ids msk) < 2" "t < length msk" "msk ! t"
    and "\<exists>a \<in> set (valid_ids msk). a < t" "\<exists>b \<in> set (valid_ids msk). t < b"
  shows "\<exists>a b. a \<in> set (valid_ids msk) \<and> b \<in> set (valid_ids msk) \<and> a < t \<and> t < b
       \<and> (\<forall>u. a < u \<and> u < b \<longrightarrow> msk ! u)
       \<and> joint_kp kp msk t = lerp a (kp ! a) b (kp ! b) t"
proof -
  let ?v = "valid_ids msk"
  have ne: "?v \<noteq> []" using assms(1) by auto
  have im: "interpolate_map msk ! t" using interpolate_map_nth [OF ne assms(2)] assms(3-5) by simp
  then have jk: "joint_kp kp msk t = interp1d (map (\<lambda>x. (x, kp ! x)) ?v) t"
    using assms(1) by (simp add: joint_kp_def)
  have s: "sorted_wrt (<) ?v" by (rule sorted_valid_ids)
  from assms(4) obtain x where x: "x \<in> set ?v" "x < t" by blast
  from assms(5) obtain z where z: "z \<in> set ?v" "t < z" by blast
  have "hd ?v = Min (set ?v)" using Min_sorted_hd [OF s ne] by simp
  also have "\<dots> \<le> x" using x(1) by simp
  finally have h: "hd ?v < t" using x(2) by simp
  have "z \<le> Max (set ?v)" using z(1) by simp
  also have "\<dots> = last ?v" by (rule Max_sorted_last [OF s ne])
  finally have l: "t < last ?v" using z(2) by simp
  have nt: "t \<notin> set ?v" using assms(3) by (simp add: set_valid_ids)
  from interp1d_between [OF s ne h l nt, of "\<lambda>x. kp ! x"]
  obtain a b where ab: "a \<in> set ?v" "b \<in> set ?v" "a < t" "t < b" "\<forall>x \<in> set ?v. \<not> (a < x \<and> x < b)"
    "interp1d (map (\<lambda>x. (x, kp ! x)) ?v) t = lerp a (kp ! a) b (kp ! b) t" by blast
  have "msk ! u" if "a < u \<and> u < b" for u
  proof (rule ccontr)
    assume "\<not> msk ! u"
    moreover have "u < length msk" using that ab(2) by (simp add: set_valid_ids)
    ultimately have "u \<in> set ?v" by (simp add: set_valid_ids)
    with ab(5) that show False by blast
  qed
  with ab jk show ?thesis by (intro exI [of _ a] exI [of _ b]) simp
qed

lemma hd_valid_ids_less:
  assumes "valid_ids msk \<noteq> []"
  shows "(\<exists>a \<in> set (valid_ids msk). a < t) = (hd (valid_ids msk) < t)"
proof -
  have "hd (valid_ids msk) = Min (set (valid_ids msk))"
    using Min_sorted_hd [OF sorted_valid_ids assms] by simp
  then show ?thesis using assms by (simp add: Min_less_iff)
qed

lemma last_valid_ids_greater:
  assumes "valid_ids msk \<noteq> []"
  shows "(\<exists>b \<in> set (valid_ids msk). t < b) = (t < last (valid_ids msk))"
proof -
  have "last (valid_ids msk) = Max (set (valid_ids msk))"
    using Max_sorted_last [OF sorted_valid_ids assms] by simp
  then show ?thesis using assms by (simp add: Max_gr_iff)
qed

text \<open>
  C5. On a valid record the transform returns, and for every joint \<open>k\<close> and
  frame \<open>t\<close>: if the joint has fewer than two valid frames, its coordinates and
  its flag are as before. Otherwise, if the frame is invalid and lies strictly
  between the first and the last valid frame of the joint, the frame is marked
  valid and each of its coordinates is \<open>(q - p) / (b - a) * (t - a) + p\<close>, where
  \<open>a\<close> and \<open>b\<close> are the nearest valid frames before and after \<open>t\<close> and \<open>p\<close> and \<open>q\<close>
  are the same coordinate of the joint in the frames \<open>a\<close> and \<open>b\<close> of the record
  given; every other frame, so every frame before the first or after the last
  valid one, keeps its coordinates and its flag.
\<close>

theorem interpolate_occlusions:
  assumes "valid_data d" and "k < num_joints (keypoints d)" and "t < length (keypoints d)"
  shows "\<exists>d'. apply_InterpolateOcclusions d = Inr d'
     \<and> (if 2 \<le> length (valid_ids (column (invalid d) k)) \<and> invalid d ! t ! k
            \<and> hd (valid_ids (column (invalid d) k)) < t \<and> t < last (valid_ids (column (invalid d) k))
         then \<not> invalid d' ! t ! k
            \<and> (\<exists>a b. a < t \<and> t < b \<and> b < length (keypoints d)
                  \<and> \<not> invalid d ! a ! k \<and> \<not> invalid d ! b ! k
                  \<and> (\<forall>u. a < u \<and> u < b \<longrightarrow> invalid d ! u ! k)
                  \<and> keypoints d' ! t ! k =
                      map (\<lambda>(p, q). (q - p) / (real b - real a) * (real t - real a) + p)
                        (zip (keypoints d ! a ! k) (keypoints d ! b ! k)))
         else keypoints d' ! t ! k = keypoints d ! t ! k \<and> invalid d' ! t ! k = invalid d ! t ! k)"
proof -
  define kp where "kp = column (keypoints d) k"
  define msk where "msk = column (invalid d) k"
  define d' where "d' = fold interpolate_joint [0..<num_joints (keypoints d)] d"
  note L = valid_lengths [OF assms(1)]
  have lm: "length msk = length (keypoints d)" by (simp add: msk_def length_column L(1))
  have mk: "msk ! u = invalid d ! u ! k" if "u < length (keypoints d)" for u
    using that L(1) by (simp add: msk_def column_nth)
  have kk: "kp ! u = keypoints d ! u ! k" if "u < length (keypoints d)" for u
    using that by (simp add: kp_def column_nth)
  have r: "apply_InterpolateOcclusions d = Inr d'"
    using assms(1) by (simp add: apply_InterpolateOcclusions_def valid_data_def d'_def)
  have e: "keypoints d' ! t ! k = joint_kp kp msk t \<and> invalid d' ! t ! k = joint_invalid msk t"
    unfolding d'_def kp_def msk_def
    using fold_interpolate_nth [OF assms(1) _ _ assms(3) assms(2), of "[0..<num_joints (keypoints d)]"] assms(2)
    by simp
  show ?thesis unfolding msk_def [symmetric]
  proof (intro exI [of _ d'] conjI)
    show "apply_InterpolateOcclusions d = Inr d'" by (rule r)
    show "if 2 \<le> length (valid_ids msk) \<and> invalid d ! t ! k \<and> hd (valid_ids msk) < t \<and> t < last (valid_ids msk)
         then \<not> invalid d' ! t ! k
            \<and> (\<exists>a b. a < t \<and> t < b \<and> b < length (keypoints d)
                  \<and> \<not> invalid d ! a ! k \<and> \<not> invalid d ! b ! k
                  \<and> (\<forall>u. a < u \<and> u < b \<longrightarrow> invalid d ! u ! k)
                  \<and> keypoints d' ! t ! k =
                      map (\<lambda>(p, q). (q - p) / (real b - real a) * (real t - real a) + p)
                        (zip (keypoints d ! a ! k) (keypoints d ! b ! k)))
         else keypoints d' ! t ! k = keypoints d ! t ! k \<and> invalid d' ! t ! k = invalid d ! t ! k"
    proof (cases "length (valid_ids msk) < 2")
      case True
      with e kk [OF assms(3)] mk [OF assms(3)] show ?thesis
        by (simp add: joint_kp_def joint_invalid_def)
    next
      case False
      then have ne: "valid_ids msk \<noteq> []" by auto
      have tl: "t < length msk" using assms(3) lm by simp
      have im: "interpolate_map msk ! t = (msk ! t \<and> hd (valid_ids msk) < t \<and> t < last (valid_ids msk))"
        using interpolate_map_nth [OF ne tl]
        by (simp add: hd_valid_ids_less [OF ne] last_valid_ids_greater [OF ne])
      show ?thesis
      proof (cases "interpolate_map msk ! t")
        case True
        with im have c: "msk ! t" "hd (valid_ids msk) < t" "t < last (valid_ids msk)" by simp_all
        have ex: "\<exists>a \<in> set (valid_ids msk). a < t" "\<exists>b \<in> set (valid_ids msk). t < b"
          using c by (simp_all add: hd_valid_ids_less [OF ne] last_valid_ids_greater [OF ne])
        from joint_kp_between [OF False tl c(1) ex, of kp]
        obtain a b where ab: "a \<in> set (valid_ids msk)" "b \<in> set (valid_ids msk)" "a < t" "t < b"
          "\<forall>u. a < u \<and> u < b \<longrightarrow> msk ! u"
          "joint_kp kp msk t = lerp a (kp ! a) b (kp ! b) t" by blast
        have bl: "b < length (keypoints d)" using ab(2) lm by (simp add: set_valid_ids)
        then have al: "a < length (keypoints d)" using ab(3,4) by simp
        have va: "\<not> invalid d ! a ! k" using ab(1) mk [OF al] by (simp add: set_valid_ids)
        have vb: "\<not> invalid d ! b ! k" using ab(2) mk [OF bl] by (simp add: set_valid_ids)
        have btw: "\<forall>u. a < u \<and> u < b \<longrightarrow> invalid d ! u ! k"
        proof (intro allI impI)
          fix u assume u: "a < u \<and> u < b"
          then have "u < length (keypoints d)" using bl by simp
          from mk [OF this] ab(5) u show "invalid d ! u ! k" by simp
        qed
        have val: "keypoints d' ! t ! k =
            map (\<lambda>(p, q). (q - p) / (real b - real a) * (real t - real a) + p)
              (zip (keypoints d ! a ! k) (keypoints d ! b ! k))"
          using e ab(6) kk [OF al] kk [OF bl] by (simp add: lerp_def)
        have inv: "\<not> invalid d' ! t ! k" using e True False by (simp add: joint_invalid_def)
        have cond: "2 \<le> length (valid_ids msk) \<and> invalid d ! t ! k \<and> hd (valid_ids msk) < t \<and> t < last (valid_ids msk)"
          using False c mk [OF assms(3)] by simp
        have "\<exists>a b. a < t \<and> t < b \<and> b < length (keypoints d)
                  \<and> \<not> invalid d ! a ! k \<and> \<not> invalid d ! b ! k
                  \<and> (\<forall>u. a < u \<and> u < b \<longrightarrow> invalid d ! u ! k)
                  \<and> keypoints d' ! t ! k =
                      map (\<lambda>(p, q). (q - p) / (real b - real a) * (real t - real a) + p)
                        (zip (keypoints d ! a ! k) (keypoints d ! b ! k))"
          using ab(3,4) bl va vb btw val by blast
        with cond inv show ?thesis by simp
      next
        case F2: False
        with im mk [OF assms(3)] have "\<not> (invalid d ! t ! k \<and> hd (valid_ids msk) < t \<and> t < last (valid_ids msk))"
          by simp
        moreover have "keypoints d' ! t ! k = keypoints d ! t ! k \<and> invalid d' ! t ! k = invalid d ! t ! k"
          using e F2 False kk [OF assms(3)] mk [OF assms(3)] by (simp add: joint_kp_def joint_invalid_def)
        ultimately show ?thesis by auto
      qed
    qed
  qed
qed

theorem interpolate_occlusions_witness:
  "valid_data d5 \<and> 0 < num_joints (keypoints d5) \<and> 2 < length (keypoints d5)
   \<and> valid_ids (column (invalid d5) 0) = [0, 3]
   \<and> apply_InterpolateOcclusions d5
       = Inr (d5\<lparr>keypoints := [[[0, 0]], [[1, 2]], [[2, 4]], [[3, 6]], [[7, 7]]],
                 invalid := [[False], [False], [False], [False], [True]]\<rparr>)"
proof -
  have v: "valid_data d5"
    by (simp add: valid_data_def d5_def kp_shape_def uniform_list_def shape_matches_def mask_shape_def)
  have n: "0 < num_joints (keypoints d5)" "2 < length (keypoints d5)"
    by (simp_all add: d5_def num_joints_def)
  have vi: "valid_ids (column (invalid d5) 0) = [0, 3]"
    by (simp add: d5_def column_def valid_ids_def upt_rec [of _ "numeral _"] upt_rec [of 0])
  have r: "apply_InterpolateOcclusions d5
       = Inr (d5\<lparr>keypoints := [[[0, 0]], [[1, 2]], [[2, 4]], [[3, 6]], [[7, 7]]],
                 invalid := [[False], [False], [False], [False], [True]]\<rparr>)"
    by (simp add: apply_InterpolateOcclusions_def d5_def shape_matches_def mask_shape_def num_joints_def
      interpolate_joint_def column_def valid_ids_def interpolate_map_def lerp_def Let_def
      upt_rec [of _ "numeral _"] upt_rec [of 0])
  from interpolate_occlusions [OF v n] v n vi r show ?thesis by simp
qed

section \<open>Weighted picks with weights that sum to zero\<close>

text \<open>
  C7 (as stated). A weighted pick over no children has weights that sum to
  zero, and its construction signals nothing: the list comprehension divides
  once per child.
\<close>

theorem empty_weighted_pick_constructs:
  "sum_list (map p_of []) = 0
   \<and> init_OneOf [] 1 = Inr (OneOf [] 1 [])
   \<and> init_SomeOf [] 1 True 1 = Inr (SomeOf [] 1 1 True [])"
  by (simp add: init_OneOf_def init_SomeOf_def normalize_ps_def)

text \<open>
  C7 (amended). With at least one child and weights that sum to zero the
  construction of \<^verbatim>\<open>OneOf\<close> and of \<^verbatim>\<open>SomeOf\<close> raises \<^verbatim>\<open>ZeroDivisionError\<close>. With no
  children the construction succeeds with no weights, and a call returns the
  record as it is, without a draw and without a division.
\<close>

theorem weighted_pick_zero_weights:
  "(ts \<noteq> [] \<and> sum_list (map p_of ts) = 0 \<longrightarrow>
      init_OneOf ts p = Inl ZeroDivisionError \<and> init_SomeOf ts n replace p = Inl ZeroDivisionError)
   \<and> init_OneOf [] p = Inr (OneOf [] p [])
   \<and> init_SomeOf [] n replace p = Inr (SomeOf [] p n replace [])
   \<and> call (OneOf [] p []) d g = Inr (d\<lparr>force_apply := None\<rparr>, g)
   \<and> call (SomeOf [] p n replace []) d g = Inr (d\<lparr>force_apply := None\<rparr>, g)"
  by (simp add: init_OneOf_def init_SomeOf_def normalize_ps_def)

theorem weighted_pick_zero_weights_witness:
  "[Transform WholeOcclusion False 0, NoOp 0] \<noteq> []
   \<and> sum_list (map p_of [Transform WholeOcclusion False 0, NoOp 0]) = 0
   \<and> init_OneOf [Transform WholeOcclusion False 0, NoOp 0] 1 = Inl ZeroDivisionError
   \<and> init_SomeOf [Transform WholeOcclusion False 0, NoOp 0] 2 True 1 = Inl ZeroDivisionError"
  using weighted_pick_zero_weights [of "[Transform WholeOcclusion False 0, NoOp 0]" 1 2 True]
  by simp

section \<open>The root pipeline and its probability\<close>

text \<open>
  C10. \<^verbatim>\<open>Compose.__call__\<close> never reads \<^verbatim>\<open>self.p\<close>: the result is the same for every
  \<^verbatim>\<open>p\<close>, and on a record whose masks fit (so that \<^verbatim>\<open>check_args\<close> passes) the
  pipeline without the final zeroing is the loop over all its children, with
  no draw of its own before the first child.
\<close>

theorem Compose_ignores_p:
  "call (Compose ts p set_zero) d g = call (Compose ts p' set_zero) d g
   \<and> (shape_matches (invalid d) (keypoints d) \<and> shape_matches (peturbation d) (keypoints d) \<longrightarrow>
        call (Compose ts p False) d g = call_each ts (d\<lparr>force_apply := None\<rparr>) g)"
  by (cases d) (auto simp: check_args_def split: sum.splits prod.splits)

text \<open>
  At \<^verbatim>\<open>p = 0\<close> the child of a \<^verbatim>\<open>Compose\<close> still runs (every joint becomes invalid),
  where a \<^verbatim>\<open>Sequential\<close> with the same child and \<^verbatim>\<open>p = 0\<close> skips it.
\<close>

theorem Compose_ignores_p_witness:
  "shape_matches (invalid d2) (keypoints d2) \<and> shape_matches (peturbation d2) (keypoints d2)
   \<and> call (Compose [Transform WholeOcclusion False 1] 0 False) d2 g_half
       = Inr (d2\<lparr>invalid := [[True, True]]\<rparr>, g_half\<lparr>drawn := 1\<rparr>)
   \<and> call (Sequential [Transform WholeOcclusion False 1] 0) d2 g_half
       = Inr (d2, g_half\<lparr>drawn := 1\<rparr>)"
  using Compose_ignores_p [of "[Transform WholeOcclusion False 1]" 0 False d2 g_half 1]
  by (simp add: d2_def g_half_def shape_matches_def mask_shape_def py_random_def apply_WholeOcclusion_def)

section \<open>Calls with force_apply\<close>

text \<open>
  A transform, a selection and the two weighted picks called with
  \<^verbatim>\<open>force_apply=True\<close> behave as with \<^verbatim>\<open>p = 1\<close> and a draw below it: their gate is
  bypassed.
\<close>

lemma forced_Transform_runs:
  "force_apply d = None \<Longrightarrow>
   call_forced [Transform t always_apply p] 0 d g = apply_transform t d (snd (py_random g))"
  by (cases d) (simp add: py_random_def)

lemma forced_Select_skips_gate:
  "force_apply d = None \<Longrightarrow>
   call_forced [Select s ts p] 0 d g = call_forced [Select s ts p'] 0 d g
   \<and> fst (gate (force_apply (d\<lparr>force_apply := Some True\<rparr>) = Some True) p g) \<and>
     snd (gate (force_apply (d\<lparr>force_apply := Some True\<rparr>) = Some True) p g) = g"
  by (simp add: gate_def)

lemma forced_OneOf_skips_gate:
  "force_apply d = None \<Longrightarrow>
   call_forced [OneOf ts p ps] 0 d g = call_forced [OneOf ts p' ps] 0 d g"
  by (simp add: gate_def)

lemma forced_SomeOf_skips_gate:
  "force_apply d = None \<Longrightarrow>
   call_forced [SomeOf ts p n r ps] 0 d g = call_forced [SomeOf ts p' n r ps] 0 d g"
  by (simp add: gate_def)

text \<open>
  C9. \<^verbatim>\<open>Sequential.__call__(self, **data)\<close> has no parameter \<^verbatim>\<open>force_apply\<close>: called as
  \<^verbatim>\<open>t(force_apply=True, **data)\<close> with \<^verbatim>\<open>p = 0\<close> it still draws, the draw one half is
  not below 0, the child \<^verbatim>\<open>WholeOcclusion\<close> does not run, and the keyword comes
  back as an entry of the returned dictionary. The same call of the transform
  itself with \<^verbatim>\<open>p = 0\<close> runs it.
\<close>

theorem Sequential_keeps_gate_when_forced:
  "call_forced [Sequential [Transform WholeOcclusion False 1] 0] 0 d2 g_half
     = Inr (d2\<lparr>force_apply := Some True\<rparr>, g_half\<lparr>drawn := 1\<rparr>)
   \<and> call_forced [Transform WholeOcclusion False 0] 0 d2 g_half
     = Inr (d2\<lparr>invalid := [[True, True]]\<rparr>, g_half\<lparr>drawn := 1\<rparr>)"
  by (simp add: d2_def g_half_def py_random_def apply_WholeOcclusion_def)

section \<open>Jittering and the bounding box\<close>

text \<open>
  C6. \<^verbatim>\<open>Jittering(angles=(0, 0), distance=(-2, -2), keypoint=1)\<close> passes both range
  checks of the constructor. On the frame with the valid joints (1, 1) and
  (2, 2) the box is [1, 2] x [1, 2]; joint 1 is moved by -2 along the
  direction (1, 0) to (0, 2), left of the box, and \<^verbatim>\<open>_clip_bb\<close> returns it there:
  the quotients are -1 and 0, their maximum 0 moves nothing back.
\<close>

theorem Jittering_negative_distance:
  "init_Jittering (0, 0) (- 2, - 2) (Some 1) = Inr (Jittering (0, 0) (- 2, - 2) (Some 1))
   \<and> call (Transform (Jittering (0, 0) (- 2, - 2) (Some 1)) False 1) d2 g_half
       = Inr (d2\<lparr>keypoints := [[[1, 1], [0, 2]]]\<rparr>, g_half\<lparr>drawn := 3\<rparr>)
   \<and> bottom_left_bb (keypoints d2 ! 0) (invalid d2 ! 0) = [1, 1]
   \<and> top_right_bb (keypoints d2 ! 0) (invalid d2 ! 0) = [2, 2]"
  by (simp add: init_Jittering_def d2_def g_half_def py_random_def apply_Jittering_def
      shape_matches_def mask_shape_def num_joints_def jitter_frame_def index_ok_def py_index_def ix_def
      uniform_def clip_bb_def bottom_left_bb_def top_right_bb_def valid_joints_def np_max_def
      Let_def numeral_2_eq_2)

end
